theory Spec2Isabelle
  imports Complex_Main "HOL-Library.Sublist" "HOL-Library.AList"
begin

text \<open>
  This theory models the tools for recordings of Heimann HTPA 32x32d thermopile
  arrays: the timestamp matcher, samples and their alignment, the naming of the
  per-view files, the file manager and the dataset maker, the constructor of a
  data-backed sample on shared objects, and the txt codec.  The definitions come
  first; the properties proved about them follow.
\<close>

section \<open>Errors and small Python/NumPy primitives\<close>

text \<open>
  The exceptions the modelled code can raise.  Every raise of the source is an
  \<open>Inl\<close> branch of the model.
\<close>

datatype error =
  ValueError | IndexError | KeyError | RuntimeError | AssertionError
  | FileNotFoundError | JSONDecodeError | ConfigureFirst

text \<open>
  \<open>np.argmin\<close> of a one-dimensional array: the index of the first occurrence of the
  minimum.  On an empty array NumPy raises \<open>ValueError\<close>.  \<open>argmin_from best bi i xs\<close>
  is the scan with the smallest value seen so far, its index, and the index of the
  next element.
\<close>

fun argmin_from :: "'a::linorder \<Rightarrow> nat \<Rightarrow> nat \<Rightarrow> 'a list \<Rightarrow> nat" where
  "argmin_from best bi i [] = bi"
| "argmin_from best bi i (x # xs) =
     (if x < best then argmin_from x i (Suc i) xs else argmin_from best bi (Suc i) xs)"

definition argmin :: "'a::linorder list \<Rightarrow> error + nat" where
  "argmin xs = (case xs of [] \<Rightarrow> Inl ValueError | x # rest \<Rightarrow> Inr (argmin_from x 0 1 rest))"

text \<open>
  \<open>a[ids]\<close> for a list of indices (NumPy integer-array indexing): the elements at the
  given positions, \<open>IndexError\<close> when a position is out of range.
\<close>

definition take_idx :: "'a list \<Rightarrow> nat list \<Rightarrow> error + 'a list" where
  "take_idx xs ids = (if list_all (\<lambda>i. i < length xs) ids then Inr (map (\<lambda>i. xs ! i) ids)
                      else Inl IndexError)"

section \<open>Timestamp matcher\<close>

text \<open>
  Timestamps are modelled as real numbers; the rounding of the floating-point
  operations is not part of the model.

  \<open>cdist\<close> (SciPy, Euclidean metric) on two column vectors: the matrix of the
  distances between every element of the first and every element of the second.
\<close>

definition cdist :: "real list \<Rightarrow> real list \<Rightarrow> real list list" where
  "cdist xs ys = map (\<lambda>a. map (\<lambda>b. sqrt ((a - b)\<^sup>2)) ys) xs"

text \<open>
  \<open>cdist(min_len_ts, ts).argmin(axis=-1)\<close>: the row-wise argmin.  NumPy raises
  \<open>ValueError\<close> when the reduced axis is empty; otherwise every row has the length
  of \<open>ts\<close> and its argmin is the scan from its first element.
\<close>

definition argmin_rows :: "real list \<Rightarrow> real list \<Rightarrow> error + nat list" where
  "argmin_rows ref ts =
     (if ts = [] then Inl ValueError
      else Inr (map (\<lambda>row. argmin_from (hd row) 0 1 (tl row)) (cdist ref ts)))"

text \<open>The loop of \<open>match_timesteps\<close> over \<open>enumerate(ts_list)\<close>, from position \<open>idx\<close>.\<close>

fun match_loop :: "nat \<Rightarrow> real list \<Rightarrow> nat \<Rightarrow> real list list \<Rightarrow> error + nat list list" where
  "match_loop min_len_idx min_len_ts idx [] = Inr []"
| "match_loop min_len_idx min_len_ts idx (ts # rest) =
     (case (if idx = min_len_idx then Inr [0 ..< length min_len_ts]
            else argmin_rows min_len_ts ts) of
        Inl e \<Rightarrow> Inl e
      | Inr ids \<Rightarrow>
          (case match_loop min_len_idx min_len_ts (Suc idx) rest of
             Inl e \<Rightarrow> Inl e
           | Inr out \<Rightarrow> Inr (ids # out)))"

definition match_timesteps :: "real list list \<Rightarrow> error + nat list list" where
  "match_timesteps ts_list =
     (case argmin (map length ts_list) of
        Inl e \<Rightarrow> Inl e
      | Inr min_len_idx \<Rightarrow> match_loop min_len_idx (ts_list ! min_len_idx) 0 ts_list)"

text \<open>
  Specification predicates.  \<open>first_argmin xs r\<close>: \<open>r\<close> is the first position of a
  minimum of \<open>xs\<close>.  \<open>nearest_first ts t k\<close>: position \<open>k\<close> of \<open>ts\<close> holds a timestamp
  with minimum absolute difference to \<open>t\<close>, and no earlier position does.
\<close>

definition first_argmin :: "'a::linorder list \<Rightarrow> nat \<Rightarrow> bool" where
  "first_argmin xs r \<longleftrightarrow>
     r < length xs \<and> (\<forall>k<length xs. xs ! r \<le> xs ! k) \<and> (\<forall>k<r. xs ! r < xs ! k)"

definition nearest_first :: "real list \<Rightarrow> real \<Rightarrow> nat \<Rightarrow> bool" where
  "nearest_first ts t k \<longleftrightarrow>
     k < length ts \<and> (\<forall>m<length ts. \<bar>ts ! k - t\<bar> \<le> \<bar>ts ! m - t\<bar>) \<and>
     (\<forall>m<k. \<bar>ts ! k - t\<bar> < \<bar>ts ! m - t\<bar>)"

section \<open>Samples\<close>

text \<open>
  A frame is a grid of temperatures; a view's array is its list of frames.  A sample
  holds, per view, an id, an array and a timestamp list, as three parallel lists, and
  optionally the file paths it is written to.
\<close>

type_synonym frame = "real list list"

record sample =
  filepaths :: "string list option"
  ids :: "string list"
  arrays :: "frame list list"
  timestamps :: "real list list"

text \<open>
  The constructor of the data-backed sample, on values: \<open>filepaths\<close> is set only when
  \<open>output_filepaths\<close> is truthy (given and not empty).
\<close>

definition TPA_Sample_from_data ::
  "frame list list \<Rightarrow> real list list \<Rightarrow> string list \<Rightarrow> string list option \<Rightarrow> sample" where
  "TPA_Sample_from_data arrs tss idl output_filepaths =
     \<lparr>filepaths = (case output_filepaths of None \<Rightarrow> None
                    | Some fps \<Rightarrow> if fps = [] then None else Some fps),
      ids = idl, arrays = arrs, timestamps = tss\<rparr>"

text \<open>\<open>test_alignment\<close>: all timestamp lists have the length of the first one.\<close>

definition test_alignment :: "sample \<Rightarrow> bool" where
  "test_alignment s =
     (let lengths = map length (timestamps s)
      in case lengths of [] \<Rightarrow> True | l0 # _ \<Rightarrow> list_all (\<lambda>l. l = l0) lengths)"

text \<open>
  The loop of \<open>align_timesteps\<close> over \<open>range(len(self.ids))\<close>: view \<open>i\<close>'s array and
  timestamps are re-indexed by \<open>indexes[i]\<close>.  Every subscript out of range raises
  \<open>IndexError\<close>.
\<close>

fun align_loop :: "nat list list \<Rightarrow> nat list \<Rightarrow> sample \<Rightarrow> error + sample" where
  "align_loop indexes [] s = Inr s"
| "align_loop indexes (i # rest) s =
     (if i < length (arrays s) \<and> i < length indexes \<and> i < length (timestamps s) then
        (case take_idx (arrays s ! i) (indexes ! i) of
           Inl e \<Rightarrow> Inl e
         | Inr a \<Rightarrow>
             (case take_idx (timestamps s ! i) (indexes ! i) of
                Inl e \<Rightarrow> Inl e
              | Inr t \<Rightarrow>
                  align_loop indexes rest
                    (s\<lparr>arrays := (arrays s)[i := a], timestamps := (timestamps s)[i := t]\<rparr>)))
      else Inl IndexError)"

text \<open>\<open>[ts[0] for ts in self.timestamps]\<close> and \<open>np.min\<close> of it.\<close>

definition first_timestamps :: "real list list \<Rightarrow> error + real list" where
  "first_timestamps tss = (if [] \<in> set tss then Inl IndexError else Inr (map hd tss))"

definition np_min :: "real list \<Rightarrow> error + real" where
  "np_min xs = (case xs of [] \<Rightarrow> Inl ValueError | x # rest \<Rightarrow> Inr (fold min rest x))"

definition align_timesteps :: "bool \<Rightarrow> sample \<Rightarrow> error + sample" where
  "align_timesteps reset_T0 s =
     (case match_timesteps (timestamps s) of
        Inl e \<Rightarrow> Inl e
      | Inr indexes \<Rightarrow>
          (case align_loop indexes [0 ..< length (ids s)] s of
             Inl e \<Rightarrow> Inl e
           | Inr s' \<Rightarrow>
               if reset_T0 then
                 (case first_timestamps (timestamps s') of
                    Inl e \<Rightarrow> Inl e
                  | Inr firsts \<Rightarrow>
                      (case np_min firsts of
                         Inl e \<Rightarrow> Inl e
                       | Inr sample_T0_min \<Rightarrow>
                           Inr (s'\<lparr>timestamps :=
                                  map (map (\<lambda>t. t - sample_T0_min)) (timestamps s')\<rparr>)))
               else Inr s'))"

text \<open>
  A well-formed sample: at least one view, no empty timestamp list, one id per view,
  and per view as many frames as timestamps.
\<close>

definition well_formed :: "sample \<Rightarrow> bool" where
  "well_formed s \<longleftrightarrow>
     timestamps s \<noteq> [] \<and> [] \<notin> set (timestamps s) \<and>
     length (ids s) = length (timestamps s) \<and>
     map length (arrays s) = map length (timestamps s)"

text \<open>A sample with two views of three and two frames.\<close>

definition two_views :: sample where
  "two_views = TPA_Sample_from_data [[[[20]], [[21]], [[22]]], [[[30]], [[31]]]]
                 [[5, 6, 7], [5.2, 6.9]] [''0'', ''1''] None"

section \<open>File names\<close>

text \<open>
  \<open>s.split(sep)\<close> for a nonempty separator: the pieces between the leftmost,
  non-overlapping occurrences of \<open>sep\<close>.  The result is never empty.
\<close>

fun py_split :: "string \<Rightarrow> string \<Rightarrow> string list" where
  "py_split sep [] = [[]]"
| "py_split sep (c # cs) =
     (if sep \<noteq> [] \<and> prefix sep (c # cs) then [] # py_split sep (drop (length sep - 1) cs)
      else (case py_split sep cs of [] \<Rightarrow> [[c]] | p # ps \<Rightarrow> (c # p) # ps))"

text \<open>\<open>filepath.split(".")[0]\<close>.\<close>

definition remove_extension :: "string \<Rightarrow> string" where
  "remove_extension filepath = hd (py_split ''.'' filepath)"

text \<open>\<open>filepath.split(".")[1]\<close>, an \<open>IndexError\<close> when the path has no dot.\<close>

definition get_extension :: "string \<Rightarrow> error + string" where
  "get_extension filepath =
     (case py_split ''.'' filepath of _ # e # _ \<Rightarrow> Inr e | _ \<Rightarrow> Inl IndexError)"

text \<open>\<open>os.path.basename\<close> (POSIX): the text after the last slash.\<close>

definition basename :: "string \<Rightarrow> string" where
  "basename p = rev (takeWhile (\<lambda>c. c \<noteq> CHR ''/'') (rev p))"

text \<open>
  \<open>os.path.join\<close> (POSIX) of two components: an absolute second component replaces
  the first; otherwise a slash is inserted unless the first is empty or ends with one.
\<close>

definition path_join :: "string \<Rightarrow> string \<Rightarrow> string" where
  "path_join a b =
     (if prefix ''/'' b then b
      else if a = [] \<or> suffix ''/'' a then a @ b
      else a @ ''/'' @ b)"

text \<open>\<open>name.split("ID")[0]\<close> of the extension-stripped base name.\<close>

definition TPA_get_file_prefix :: "string \<Rightarrow> string" where
  "TPA_get_file_prefix filepath = hd (py_split ''ID'' (remove_extension (basename filepath)))"

text \<open>\<open>TPA_Sample_from_filepaths._read_ID\<close>: \<open>name.split("ID")[-1]\<close>.\<close>

definition read_ID :: "string \<Rightarrow> string" where
  "read_ID filepath = last (py_split ''ID'' (remove_extension (basename filepath)))"

text \<open>\<open>TPA_Sample_from_data.make_filepaths\<close>: one path per view id.\<close>

definition make_filepaths :: "string \<Rightarrow> string \<Rightarrow> string \<Rightarrow> sample \<Rightarrow> sample" where
  "make_filepaths parent_dir pfx extension s =
     s\<lparr>filepaths := Some (map (\<lambda>id. path_join parent_dir (pfx @ ''ID'' @ id @ ''.'' @ extension))
                          (ids s))\<rparr>"

text \<open>
  Specification function: the number of positions of \<open>s\<close> at which an occurrence of
  \<open>sep\<close> starts.
\<close>

fun count_occ :: "string \<Rightarrow> string \<Rightarrow> nat" where
  "count_occ sep [] = 0"
| "count_occ sep (c # cs) = (if prefix sep (c # cs) then 1 else 0) + count_occ sep cs"

text \<open>Specification function: \<open>sep.join(pieces)\<close>.\<close>

fun py_join :: "string \<Rightarrow> string list \<Rightarrow> string" where
  "py_join sep [] = []"
| "py_join sep [p] = p"
| "py_join sep (p # q # ps) = p @ sep @ py_join sep (q # ps)"

section \<open>JSON values and the file system\<close>

text \<open>
  A JSON value as \<open>json.load\<close> returns it.  \<open>truthy\<close> is Python's truth value of it;
  \<open>is_int\<close> is the test \<open>type(v) == int\<close>, which a \<open>bool\<close> does not pass.
\<close>

datatype jvalue =
  JNull | JBool bool | JInt int | JFloat real | JStr string
  | JArr "jvalue list" | JObj "(string \<times> jvalue) list"

fun truthy :: "jvalue \<Rightarrow> bool" where
  "truthy JNull = False"
| "truthy (JBool b) = b"
| "truthy (JInt i) = (i \<noteq> 0)"
| "truthy (JFloat r) = (r \<noteq> 0)"
| "truthy (JStr s) = (s \<noteq> [])"
| "truthy (JArr xs) = (xs \<noteq> [])"
| "truthy (JObj kvs) = (kvs \<noteq> [])"

fun is_int :: "jvalue \<Rightarrow> bool" where
  "is_int (JInt i) = True"
| "is_int v = False"

text \<open>
  A file holds raw bytes or a JSON object (kept parsed, in key order).  The file system
  is the list of files by path and the list of directories.  Paths are compared as
  strings.
\<close>

datatype content = Raw string | Json "(string \<times> jvalue) list"

record filesystem =
  files :: "(string \<times> content) list"
  dirs :: "string list"

definition path_exists :: "filesystem \<Rightarrow> string \<Rightarrow> bool" where
  "path_exists fs path \<longleftrightarrow> path \<in> set (dirs fs) \<or> path \<in> fst ` set (files fs)"

text \<open>
  \<open>ensure_path_exists\<close>: the directory is created when nothing is at the path.
  \<open>os.makedirs\<close> raises \<open>FileNotFoundError\<close> for the empty path.
\<close>

definition ensure_path_exists :: "string \<Rightarrow> filesystem \<Rightarrow> error + filesystem" where
  "ensure_path_exists path fs =
     (if \<not> path_exists fs path then
        (if path = [] then Inl FileNotFoundError else Inr (fs\<lparr>dirs := path # dirs fs\<rparr>))
      else Inr fs)"

text \<open>
  \<open>glob.glob(os.path.join(dir, "*" + tail))\<close> for a literal \<open>tail\<close>: the files directly
  in \<open>dir\<close> whose name ends with \<open>tail\<close> and does not start with a dot, in the order of
  the file list.
\<close>

definition glob_star :: "filesystem \<Rightarrow> string \<Rightarrow> string \<Rightarrow> string list" where
  "glob_star fs dir tail =
     filter (\<lambda>p. p = path_join dir (basename p) \<and> suffix tail (basename p) \<and>
                 \<not> prefix ''.'' (basename p))
       (map fst (files fs))"

text \<open>\<open>shutil.copy2\<close>: the destination gets the content of the source.\<close>

definition copy2 :: "string \<Rightarrow> string \<Rightarrow> filesystem \<Rightarrow> error + filesystem" where
  "copy2 src dst fs =
     (case map_of (files fs) src of
        None \<Rightarrow> Inl FileNotFoundError
      | Some f \<Rightarrow> Inr (fs\<lparr>files := AList.update dst f (files fs)\<rparr>))"

section \<open>File manager\<close>

text \<open>
  \<open>collections.Counter(prefixes).keys()\<close>: the distinct prefixes in the order of their
  first occurrence; the count of a prefix is its number of occurrences.  The flat list
  of the files' prefixes (\<open>prefixes\<close> in the source) is called \<open>file_prefixes\<close> here.
\<close>

definition counter_keys :: "string list \<Rightarrow> string list" where
  "counter_keys file_prefixes = rev (remdups (rev file_prefixes))"

text \<open>
  The loop of \<open>_remove_missing_views\<close> over the counter's keys.  \<open>list.remove\<close>
  deletes the first occurrence and raises \<open>ValueError\<close> when there is none.
\<close>

fun remove_missing_loop :: "string list \<Rightarrow> nat \<Rightarrow> string list \<Rightarrow> string list \<Rightarrow> error + string list" where
  "remove_missing_loop file_prefixes view_number [] prefixes2filter = Inr prefixes2filter"
| "remove_missing_loop file_prefixes view_number (pfx # keys) prefixes2filter =
     (if count_list file_prefixes pfx < view_number then
        (if pfx \<in> set prefixes2filter
         then remove_missing_loop file_prefixes view_number keys (remove1 pfx prefixes2filter)
         else Inl ValueError)
      else remove_missing_loop file_prefixes view_number keys prefixes2filter)"

definition remove_missing_views :: "nat \<Rightarrow> string list \<Rightarrow> string list \<Rightarrow> error + string list" where
  "remove_missing_views view_number file_prefixes prefixes2filter =
     remove_missing_loop file_prefixes view_number (counter_keys file_prefixes) prefixes2filter"

section \<open>Dataset maker\<close>

record maker =
  configured :: bool
  dataset_destination_dir :: string
  view_IDs :: "string list"
  processed_input_dir :: string
  labels_filepath :: string
  tpas_extension :: string

text \<open>
  A Python dictionary under iteration, as CPython (3.8 and later) keeps it: the table of
  entries in insertion order, where a deleted entry leaves a hole and a new key is
  appended.  Resizing of the table is not modelled.
\<close>

type_synonym table = "(string \<times> jvalue) option list"

definition used :: "table \<Rightarrow> nat" where
  "used t = length (filter (\<lambda>e. e \<noteq> None) t)"

definition table_items :: "table \<Rightarrow> (string \<times> jvalue) list" where
  "table_items t = concat (map (\<lambda>e. case e of None \<Rightarrow> [] | Some kv \<Rightarrow> [kv]) t)"

definition table_pop :: "string \<Rightarrow> table \<Rightarrow> table" where
  "table_pop k t = map (\<lambda>e. case e of None \<Rightarrow> None
                             | Some (k', v) \<Rightarrow> if k' = k then None else Some (k', v)) t"

definition table_set :: "string \<Rightarrow> jvalue \<Rightarrow> table \<Rightarrow> table" where
  "table_set k v t =
     (if k \<in> fst ` set (table_items t)
      then map (\<lambda>e. case e of None \<Rightarrow> None
                     | Some (k', v') \<Rightarrow> if k' = k then Some (k, v) else Some (k', v')) t
      else t @ [Some (k, v)])"

text \<open>The first entry at or after position \<open>pos\<close> that is not a hole.\<close>

definition find_live :: "nat \<Rightarrow> table \<Rightarrow> (nat \<times> string \<times> jvalue) option" where
  "find_live pos t =
     (case dropWhile (\<lambda>e. e = None) (drop pos t) of
        Some (k, v) # _ \<Rightarrow> Some (pos + length (takeWhile (\<lambda>e. e = None) (drop pos t)), k, v)
      | _ \<Rightarrow> None)"

text \<open>
  The body of the loop of \<open>_read_labels_file\<close>: a key that contains \<open>ID\<close> is popped and
  its value stored under the text before the first \<open>ID\<close>.
\<close>

definition rename_key :: "string \<Rightarrow> jvalue \<Rightarrow> table \<Rightarrow> table" where
  "rename_key key v t =
     (if length (py_split ''ID'' key) > 1
      then table_set (hd (py_split ''ID'' key)) v (table_pop key t)
      else t)"

text \<open>
  \<open>for key in data.keys(): ...\<close> with the dictionary changed by the body.  The iterator
  remembers the size of the dictionary at its start (\<open>di_used\<close>), the number of keys it
  may still return (\<open>len\<close>) and its position.  At each step it raises \<open>RuntimeError\<close>
  when the size differs from \<open>di_used\<close>, stops at the end of the table, and raises
  \<open>RuntimeError\<close> when it finds an entry after having returned \<open>len\<close> keys.
\<close>

fun iterate_keys :: "nat \<Rightarrow> nat \<Rightarrow> nat \<Rightarrow> table \<Rightarrow> error + table" where
  "iterate_keys di_used 0 pos t =
     (if used t \<noteq> di_used then Inl RuntimeError
      else (case find_live pos t of None \<Rightarrow> Inr t | Some _ \<Rightarrow> Inl RuntimeError))"
| "iterate_keys di_used (Suc len) pos t =
     (if used t \<noteq> di_used then Inl RuntimeError
      else (case find_live pos t of
              None \<Rightarrow> Inr t
            | Some (i, key, v) \<Rightarrow> iterate_keys di_used len (Suc i) (rename_key key v t)))"

definition read_labels_file :: "filesystem \<Rightarrow> string \<Rightarrow> error + (string \<times> jvalue) list" where
  "read_labels_file fs json_filepath =
     (case map_of (files fs) json_filepath of
        None \<Rightarrow> Inl FileNotFoundError
      | Some (Raw _) \<Rightarrow> Inl JSONDecodeError
      | Some (Json data) \<Rightarrow>
          (case iterate_keys (length data) (length data) 0 (map Some data) of
             Inl e \<Rightarrow> Inl e
           | Inr t \<Rightarrow> Inr (table_items t)))"

text \<open>
  \<open>for prefix in prefixes2make: if <test>: prefixes2make.remove(prefix)\<close>.  The list
  iterator holds a position; after a removal the position still advances, so the element
  that moved into the freed place is not visited.
\<close>

function remove_while_iterating ::
  "(string \<Rightarrow> error + bool) \<Rightarrow> nat \<Rightarrow> string list \<Rightarrow> error + string list" where
  "remove_while_iterating test i xs =
     (if i < length xs then
        (case test (xs ! i) of
           Inl e \<Rightarrow> Inl e
         | Inr True \<Rightarrow> remove_while_iterating test (Suc i) (remove1 (xs ! i) xs)
         | Inr False \<Rightarrow> remove_while_iterating test (Suc i) xs)
      else Inr xs)"
  by pat_completeness auto
termination
  by (relation "measure (\<lambda>(test, i, xs). length xs - i)") (auto simp: length_remove1)

declare remove_while_iterating.simps [simp del]

text \<open>
  The three label loops of \<open>make\<close>: drop a prefix that is not in the labels, then one
  whose label is falsy, then one whose label is not an \<open>int\<close>.  \<open>self._labels[prefix]\<close>
  raises \<open>KeyError\<close> for a prefix that is not in the labels.
\<close>

definition lookup_label :: "(string \<times> jvalue) list \<Rightarrow> string \<Rightarrow> error + jvalue" where
  "lookup_label labels pfx = (case map_of labels pfx of None \<Rightarrow> Inl KeyError | Some v \<Rightarrow> Inr v)"

definition filter_labels :: "(string \<times> jvalue) list \<Rightarrow> string list \<Rightarrow> error + string list" where
  "filter_labels labels prefixes2make =
     (case remove_while_iterating (\<lambda>p. Inr (map_of labels p = None)) 0 prefixes2make of
        Inl e \<Rightarrow> Inl e
      | Inr l1 \<Rightarrow>
          (case remove_while_iterating
                  (\<lambda>p. case lookup_label labels p of Inl e \<Rightarrow> Inl e | Inr v \<Rightarrow> Inr (\<not> truthy v))
                  0 l1 of
             Inl e \<Rightarrow> Inl e
           | Inr l2 \<Rightarrow>
               remove_while_iterating
                 (\<lambda>p. case lookup_label labels p of Inl e \<Rightarrow> Inl e | Inr v \<Rightarrow> Inr (\<not> is_int v))
                 0 l2))"

text \<open>The files found by the glob patterns of \<open>make\<close>, one pattern per view id.\<close>

definition discover :: "maker \<Rightarrow> filesystem \<Rightarrow> string list" where
  "discover m fs =
     concat (map (\<lambda>id. glob_star fs (processed_input_dir m) (''ID'' @ id @ ''.'' @ tpas_extension m))
               (view_IDs m))"

text \<open>
  The candidate prefixes of \<open>make\<close> after the completeness filter and the label loops.
  \<open>list_of_set\<close> stands for \<open>list(set(prefixes))\<close>, whose order Python leaves open.
\<close>

definition select_prefixes ::
  "(string list \<Rightarrow> string list) \<Rightarrow> maker \<Rightarrow> filesystem \<Rightarrow> error + string list" where
  "select_prefixes list_of_set m fs =
     (let file_prefixes = map TPA_get_file_prefix (discover m fs) in
      case remove_missing_views (length (view_IDs m)) file_prefixes (list_of_set file_prefixes) of
        Inl e \<Rightarrow> Inl e
      | Inr prefixes2make \<Rightarrow>
          (case read_labels_file fs (labels_filepath m) of
             Inl e \<Rightarrow> Inl e
           | Inr labels \<Rightarrow> filter_labels labels prefixes2make))"

text \<open>The copy loop of \<open>make\<close>; it stops at the first failing copy.\<close>

fun copy_all :: "(string \<times> string) list \<Rightarrow> filesystem \<Rightarrow> error option \<times> filesystem" where
  "copy_all [] fs = (None, fs)"
| "copy_all ((src, dst) # rest) fs =
     (case copy2 src dst fs of Inl e \<Rightarrow> (Some e, fs) | Inr fs' \<Rightarrow> copy_all rest fs')"

definition write_nfo :: "maker \<Rightarrow> filesystem \<Rightarrow> filesystem" where
  "write_nfo m fs =
     fs\<lparr>files := AList.update (path_join (dataset_destination_dir m) ''tpa.nfo'')
                    (Json [(''DATASET_PREPARED'', JInt 1)]) (files fs)\<rparr>"

definition copy_labels_file :: "maker \<Rightarrow> filesystem \<Rightarrow> error + filesystem" where
  "copy_labels_file m fs =
     copy2 (labels_filepath m) (path_join (dataset_destination_dir m) ''labels.json'') fs"

definition view_paths :: "maker \<Rightarrow> string \<Rightarrow> string \<Rightarrow> string list" where
  "view_paths m dir pfx =
     map (\<lambda>view_id. path_join dir pfx @ ''ID'' @ view_id @ ''.'' @ tpas_extension m) (view_IDs m)"

text \<open>
  \<open>TPA_Dataset_Maker.make\<close> (named \<open>make_dataset\<close> here, since every record has a
  \<open>make\<close> of its own): the result (an exception or the returned flag) and the file
  system it leaves.
\<close>

definition make_dataset ::
  "(string list \<Rightarrow> string list) \<Rightarrow> maker \<Rightarrow> filesystem \<Rightarrow> (error + bool) \<times> filesystem" where
  "make_dataset list_of_set m fs =
     (if \<not> configured m then (Inl ConfigureFirst, fs)
      else
        case ensure_path_exists (dataset_destination_dir m) fs of
          Inl e \<Rightarrow> (Inl e, fs)
        | Inr fs1 \<Rightarrow>
            let prefixes2make_number0 =
                  length (list_of_set (map TPA_get_file_prefix (discover m fs1)))
            in case select_prefixes list_of_set m fs1 of
                 Inl e \<Rightarrow> (Inl e, fs1)
               | Inr prefixes2make \<Rightarrow>
                   let fps2copy = map (view_paths m (processed_input_dir m)) prefixes2make;
                       fps2output = map (view_paths m (dataset_destination_dir m)) prefixes2make;
                       prefixes2make_number = length (remdups prefixes2make);
                       prefixes_ignored = int prefixes2make_number0 - int prefixes2make_number
                   in if prefixes_ignored = int prefixes2make_number0 then (Inr False, fs1)
                      else
                        (case copy_all (concat (map2 zip fps2copy fps2output)) fs1 of
                           (Some e, fs2) \<Rightarrow> (Inl e, fs2)
                         | (None, fs2) \<Rightarrow>
                             (case copy_labels_file m (write_nfo m fs2) of
                                Inl e \<Rightarrow> (Inl e, write_nfo m fs2)
                              | Inr fs3 \<Rightarrow> (Inr True, fs3))))"

text \<open>
  A processed directory with two complete two-view samples \<open>a\<close> and \<open>b\<close> and a labels
  file, and a maker configured on it.
\<close>

definition processed_fs :: "(string \<times> jvalue) list \<Rightarrow> filesystem" where
  "processed_fs labels =
     \<lparr>files = [(''proc/aID0.txt'', Raw ''a0''), (''proc/bID0.txt'', Raw ''b0''),
               (''proc/aID1.txt'', Raw ''a1''), (''proc/bID1.txt'', Raw ''b1''),
               (''proc/tpa.nfo'', Json [(''ALIGNED'', JInt 1)]),
               (''proc/labels.json'', Json labels)],
      dirs = [''proc'']\<rparr>"

definition two_view_maker :: maker where
  "two_view_maker =
     \<lparr>configured = True, dataset_destination_dir = ''data'', view_IDs = [''0'', ''1''],
      processed_input_dir = ''proc'', labels_filepath = ''proc/labels.json'',
      tpas_extension = ''txt''\<rparr>"

section \<open>Objects and references\<close>

text \<open>
  The arguments of the constructor of a data-backed sample are Python lists, which the
  caller keeps.  To speak about sharing, objects live in a store and are named by their
  address (the position in the store; a new object is appended).  A list of view
  arrays or of timestamp lists holds references; a timestamp list holds floats and the
  id list holds strings, which are immutable and kept by value.
\<close>

type_synonym addr = nat

datatype obj =
  RefList "addr list"
  | StrList "string list"
  | FloatList "real list"
  | NdArray "frame list"

type_synonym store = "obj list"

text \<open>\<open>lst.copy()\<close>: a new list object with the same elements, that is, the same references.\<close>

definition list_copy :: "addr \<Rightarrow> store \<Rightarrow> (addr \<times> store) option" where
  "list_copy a h = (if a < length h then Some (length h, h @ [h ! a]) else None)"

record sample_ref =
  filepaths_ref :: "addr option"
  ids_ref :: addr
  arrays_ref :: addr
  timestamps_ref :: addr

text \<open>
  \<open>TPA_Sample_from_data.__init__\<close> on references: \<open>ids\<close>, \<open>arrays\<close> and \<open>timestamps\<close> are
  copied with \<open>.copy()\<close>, in this order; \<open>output_filepaths\<close> is kept as it is.
\<close>

definition TPA_Sample_from_data_init ::
  "addr \<Rightarrow> addr \<Rightarrow> addr \<Rightarrow> addr option \<Rightarrow> store \<Rightarrow> (sample_ref \<times> store) option" where
  "TPA_Sample_from_data_init arrays_a timestamps_a ids_a output_filepaths h =
     (case list_copy ids_a h of
        None \<Rightarrow> None
      | Some (i, h1) \<Rightarrow>
          (case list_copy arrays_a h1 of
             None \<Rightarrow> None
           | Some (a, h2) \<Rightarrow>
               (case list_copy timestamps_a h2 of
                  None \<Rightarrow> None
                | Some (t, h3) \<Rightarrow>
                    Some (\<lparr>filepaths_ref = output_filepaths, ids_ref = i, arrays_ref = a,
                           timestamps_ref = t\<rparr>, h3))))"

text \<open>
  What a sample stores, read through its references: the ids, the array of each view
  and the timestamps of each view.  \<open>None\<close> when a reference does not lead to an object
  of the expected kind.
\<close>

definition get_strs :: "store \<Rightarrow> addr \<Rightarrow> string list option" where
  "get_strs h a = (if a < length h then (case h ! a of StrList xs \<Rightarrow> Some xs | _ \<Rightarrow> None) else None)"

definition get_refs :: "store \<Rightarrow> addr \<Rightarrow> addr list option" where
  "get_refs h a = (if a < length h then (case h ! a of RefList rs \<Rightarrow> Some rs | _ \<Rightarrow> None) else None)"

definition get_floats :: "store \<Rightarrow> addr \<Rightarrow> real list option" where
  "get_floats h a =
     (if a < length h then (case h ! a of FloatList ts \<Rightarrow> Some ts | _ \<Rightarrow> None) else None)"

definition get_array :: "store \<Rightarrow> addr \<Rightarrow> frame list option" where
  "get_array h a = (if a < length h then (case h ! a of NdArray fs \<Rightarrow> Some fs | _ \<Rightarrow> None) else None)"

definition stored_ids :: "store \<Rightarrow> sample_ref \<Rightarrow> string list option" where
  "stored_ids h s = get_strs h (ids_ref s)"

definition stored_arrays :: "store \<Rightarrow> sample_ref \<Rightarrow> frame list option list option" where
  "stored_arrays h s = map_option (map (get_array h)) (get_refs h (arrays_ref s))"

definition stored_timestamps :: "store \<Rightarrow> sample_ref \<Rightarrow> real list option list option" where
  "stored_timestamps h s = map_option (map (get_floats h)) (get_refs h (timestamps_ref s))"

text \<open>
  Well-typed constructor arguments: three list objects, where the elements of the
  arrays list are arrays and those of the timestamps list are lists of floats.
\<close>

definition well_typed_args :: "store \<Rightarrow> addr \<Rightarrow> addr \<Rightarrow> addr \<Rightarrow> bool" where
  "well_typed_args h arrays_a timestamps_a ids_a \<longleftrightarrow>
     get_strs h ids_a \<noteq> None \<and>
     (case get_refs h arrays_a of None \<Rightarrow> False
      | Some rs \<Rightarrow> list_all (\<lambda>r. get_array h r \<noteq> None) rs) \<and>
     (case get_refs h timestamps_a of None \<Rightarrow> False
      | Some rs \<Rightarrow> list_all (\<lambda>r. get_floats h r \<noteq> None) rs)"

text \<open>
  A caller's store with one view: the id list at address 0, the view's array at 1, the
  arrays list at 2, the view's timestamp list at 3 and the timestamps list at 4.
\<close>

definition caller_store :: store where
  "caller_store = [StrList [''0''], NdArray [[[20]], [[21]]], RefList [1],
                   FloatList [5, 6], RefList [3]]"

text \<open>
  \<open>differs_only_at A h1 h2\<close>: the store \<open>h2\<close> is \<open>h1\<close> after any number of in-place
  changes of the objects at the addresses in \<open>A\<close> (and of allocations).
\<close>

definition differs_only_at :: "addr set \<Rightarrow> store \<Rightarrow> store \<Rightarrow> bool" where
  "differs_only_at A h1 h2 \<longleftrightarrow>
     length h1 \<le> length h2 \<and> (\<forall>b<length h1. b \<notin> A \<longrightarrow> h2 ! b = h1 ! b)"

section \<open>The txt codec\<close>

text \<open>
  Temperatures are modelled as real numbers.  \<open>"%02.2f" % val\<close> prints the sign, the
  integer part and two decimals of the value rounded to hundredths, ties to even.
\<close>

definition digit_char :: "nat \<Rightarrow> char" where
  "digit_char d = char_of (48 + d)"

fun show_nat :: "nat \<Rightarrow> string" where
  "show_nat n = (if n < 10 then [digit_char n] else show_nat (n div 10) @ [digit_char (n mod 10)])"

declare show_nat.simps [simp del]

definition round_half_even :: "real \<Rightarrow> int" where
  "round_half_even x =
     (let f = \<lfloor>x\<rfloor> in
      if x - of_int f < 1 / 2 then f
      else if 1 / 2 < x - of_int f then f + 1
      else if even f then f else f + 1)"

definition format_2f :: "real \<Rightarrow> string" where
  "format_2f val =
     (let c = nat (round_half_even (\<bar>val\<bar> * 100))
      in (if val < 0 then ''-'' else []) @ show_nat (c div 100) @ ''.'' @
         [digit_char (c mod 100 div 10), digit_char (c mod 10)])"

text \<open>\<open>("%02.2f" % val).replace(".", "")[:4]\<close>, the text written for one value.\<close>

definition value_text :: "real \<Rightarrow> string" where
  "value_text val = take 4 (filter (\<lambda>ch. ch \<noteq> CHR ''.'') (format_2f val))"

text \<open>
  \<open>int(T)\<close> for a decimal literal with an optional sign; any other text raises
  \<open>ValueError\<close>.  (The blanks and underscores that \<open>int\<close> tolerates do not occur in the
  tokens of a line split at blanks and are not modelled.)
\<close>

definition is_digit :: "char \<Rightarrow> bool" where
  "is_digit ch \<longleftrightarrow> 48 \<le> (of_char ch :: nat) \<and> (of_char ch :: nat) \<le> 57"

definition digit_val :: "char \<Rightarrow> nat" where
  "digit_val ch = of_char ch - 48"

definition parse_nat :: "string \<Rightarrow> error + nat" where
  "parse_nat ds =
     (if ds \<noteq> [] \<and> list_all is_digit ds
      then Inr (foldl (\<lambda>a ch. 10 * a + digit_val ch) 0 ds) else Inl ValueError)"

definition parse_int :: "string \<Rightarrow> error + int" where
  "parse_int s =
     (case s of
        [] \<Rightarrow> Inl ValueError
      | ch # ds \<Rightarrow>
          if ch = CHR ''-'' then
            (case parse_nat ds of Inl e \<Rightarrow> Inl e | Inr n \<Rightarrow> Inr (- int n))
          else if ch = CHR ''+'' then
            (case parse_nat ds of Inl e \<Rightarrow> Inl e | Inr n \<Rightarrow> Inr (int n))
          else (case parse_nat s of Inl e \<Rightarrow> Inl e | Inr n \<Rightarrow> Inr (int n)))"

text \<open>
  NumPy on one frame: \<open>rot90\<close> with \<open>k=1\<close> is the transpose of the frame with its rows
  reversed, with \<open>k=-1\<close> the transpose with the rows reversed afterwards;
  \<open>flatten("F")\<close> lists the frame column by column; \<open>reshape([n, n], order="F")\<close>
  fills an \<open>n\<close> by \<open>n\<close> frame column by column and raises \<open>ValueError\<close> when the
  number of elements is not \<open>n * n\<close>.
\<close>

definition rot90 :: "'a list list \<Rightarrow> 'a list list" where
  "rot90 m = transpose (map rev m)"

definition rot90_back :: "'a list list \<Rightarrow> 'a list list" where
  "rot90_back m = map rev (transpose m)"

definition flatten_F :: "'a list list \<Rightarrow> 'a list" where
  "flatten_F m = concat (transpose m)"

definition reshape_F :: "nat \<Rightarrow> 'a list \<Rightarrow> error + 'a list list" where
  "reshape_F n xs =
     (if length xs = n * n then Inr (map (\<lambda>i. map (\<lambda>j. xs ! (i + n * j)) [0 ..< n]) [0 ..< n])
      else Inl ValueError)"

definition newline :: char where
  "newline = CHR 0x0A"

text \<open>
  The text of a recording.  \<open>str_float\<close> stands for Python's rendering of a float in
  \<open>"{}".format(t)\<close>.  \<open>zip\<close> stops at the shorter of frames and timestamps.
\<close>

definition write_line :: "(real \<Rightarrow> string) \<Rightarrow> frame \<Rightarrow> real \<Rightarrow> string" where
  "write_line str_float step t =
     concat (map (\<lambda>val. value_text val @ '' '') (flatten_F step)) @
     ''t: '' @ str_float t @ [newline]"

definition txt_of_np :: "(real \<Rightarrow> string) \<Rightarrow> frame list \<Rightarrow> real list \<Rightarrow> string" where
  "txt_of_np str_float array tstamps =
     ''HTPA32x32d'' @ [newline] @
     concat (map (\<lambda>(step, t). write_line str_float step t) (zip (map rot90 array) tstamps))"

text \<open>\<open>os.path.dirname\<close> (POSIX) and \<open>ensure_parent_exists\<close>.\<close>

definition dirname :: "string \<Rightarrow> string" where
  "dirname p =
     (let head = take (length p - length (basename p)) p
      in if head \<noteq> [] \<and> \<not> list_all (\<lambda>ch. ch = CHR ''/'') head
         then rev (dropWhile (\<lambda>ch. ch = CHR ''/'') (rev head)) else head)"

definition ensure_parent_exists :: "string \<Rightarrow> filesystem \<Rightarrow> error + filesystem" where
  "ensure_parent_exists path fs = ensure_path_exists (dirname path) fs"

definition write_np2txt ::
  "(real \<Rightarrow> string) \<Rightarrow> string \<Rightarrow> frame list \<Rightarrow> real list \<Rightarrow> filesystem \<Rightarrow> error + filesystem" where
  "write_np2txt str_float output_fp array tstamps fs =
     (case ensure_parent_exists output_fp fs of
        Inl e \<Rightarrow> Inl e
      | Inr fs1 \<Rightarrow>
          Inr (fs1\<lparr>files := AList.update output_fp (Raw (txt_of_np str_float array tstamps))
                              (files fs1)\<rparr>))"

text \<open>
  \<open>f.readline()\<close> until the end of the file: the lines of a text, each with its
  newline; a last line without newline is a line too.
\<close>

fun readlines :: "string \<Rightarrow> string list" where
  "readlines [] = []"
| "readlines (ch # cs) =
     (if ch = newline then [ch] # readlines cs
      else (case readlines cs of [] \<Rightarrow> [[ch]] | l # ls \<Rightarrow> (ch # l) # ls))"

text \<open>
  One line of \<open>txt2np\<close>: the first \<open>array_size ** 2\<close> tokens are the frame, the last
  token is the timestamp.  \<open>float_of\<close> stands for Python's \<open>float\<close> on a string.
\<close>

fun parse_all :: "string list \<Rightarrow> error + int list" where
  "parse_all [] = Inr []"
| "parse_all (T # rest) =
     (case parse_int T of
        Inl e \<Rightarrow> Inl e
      | Inr c \<Rightarrow> (case parse_all rest of Inl e \<Rightarrow> Inl e | Inr cs \<Rightarrow> Inr (c # cs)))"

definition read_line :: "(string \<Rightarrow> error + real) \<Rightarrow> nat \<Rightarrow> string \<Rightarrow> error + (frame \<times> real)" where
  "read_line float_of array_size line =
     (let split = py_split '' '' line;
          timestamp = last split
      in case parse_all (take (array_size ^ 2) split) of
           Inl e \<Rightarrow> Inl e
         | Inr cs \<Rightarrow>
             (case reshape_F array_size cs of
                Inl e \<Rightarrow> Inl e
              | Inr m \<Rightarrow>
                  (case float_of timestamp of
                     Inl e \<Rightarrow> Inl e
                   | Inr t \<Rightarrow> Inr (map (map (\<lambda>c. real_of_int c * (1 / 100))) m, t))))"

fun read_lines :: "(string \<Rightarrow> error + real) \<Rightarrow> nat \<Rightarrow> string list \<Rightarrow> error + (frame list \<times> real list)" where
  "read_lines float_of array_size [] = Inr ([], [])"
| "read_lines float_of array_size (line # rest) =
     (case read_line float_of array_size line of
        Inl e \<Rightarrow> Inl e
      | Inr (m, t) \<Rightarrow>
          (case read_lines float_of array_size rest of
             Inl e \<Rightarrow> Inl e
           | Inr (frames, tstamps) \<Rightarrow> Inr (m # frames, t # tstamps)))"

text \<open>
  \<open>txt2np\<close> on the text of a file: the first line is dropped; \<open>np.rot90\<close> on the array
  of no frames raises \<open>ValueError\<close>.
\<close>

definition np_of_txt :: "(string \<Rightarrow> error + real) \<Rightarrow> nat \<Rightarrow> string \<Rightarrow> error + (frame list \<times> real list)" where
  "np_of_txt float_of array_size text =
     (case read_lines float_of array_size (tl (readlines text)) of
        Inl e \<Rightarrow> Inl e
      | Inr (frames, tstamps) \<Rightarrow>
          if frames = [] then Inl ValueError else Inr (map rot90_back frames, tstamps))"

definition txt2np ::
  "(string \<Rightarrow> error + real) \<Rightarrow> filesystem \<Rightarrow> string \<Rightarrow> nat \<Rightarrow> error + (frame list \<times> real list)" where
  "txt2np float_of fs filepath array_size =
     (case map_of (files fs) filepath of
        None \<Rightarrow> Inl FileNotFoundError
      | Some (Json _) \<Rightarrow> Inl ValueError
      | Some (Raw text) \<Rightarrow> np_of_txt float_of array_size text)"

section \<open>Codec dispatch\<close>

definition READERS_EXTENSIONS_DICT :: "(string \<times> string) list" where
  "READERS_EXTENSIONS_DICT =
     [(''txt'', ''txt''), (''csv'', ''csv''), (''pickle'', ''pickle''),
      (''pkl'', ''pickle''), (''p'', ''pickle'')]"

definition SUPPORTED_EXTENSIONS :: "string list" where
  "SUPPORTED_EXTENSIONS = map fst READERS_EXTENSIONS_DICT"

text \<open>\<open>str.lower\<close> on ASCII letters.\<close>

definition lower :: "string \<Rightarrow> string" where
  "lower s = map (\<lambda>ch. if 65 \<le> (of_char ch :: nat) \<and> (of_char ch :: nat) \<le> 90
                       then char_of (of_char ch + 32 :: nat) else ch) s"

text \<open>
  The csv and pickle codecs rest on pandas and pickle; they enter \<open>write_tpa_file\<close> and
  \<open>read_tpa_file\<close> as parameters.
\<close>

type_synonym writer = "string \<Rightarrow> frame list \<Rightarrow> real list \<Rightarrow> filesystem \<Rightarrow> error + filesystem"
type_synonym reader = "filesystem \<Rightarrow> string \<Rightarrow> error + (frame list \<times> real list)"

definition write_tpa_file ::
  "writer \<Rightarrow> writer \<Rightarrow> (real \<Rightarrow> string) \<Rightarrow> string \<Rightarrow> frame list \<Rightarrow> real list \<Rightarrow> filesystem
     \<Rightarrow> error + filesystem" where
  "write_tpa_file write_np2csv write_np2pickle str_float filepath array tstamps fs =
     (case get_extension filepath of
        Inl e \<Rightarrow> Inl e
      | Inr ext \<Rightarrow>
          (case map_of READERS_EXTENSIONS_DICT (lower ext) of
             None \<Rightarrow> Inl AssertionError
           | Some w \<Rightarrow>
               if w = ''txt'' then write_np2txt str_float filepath array tstamps fs
               else if w = ''csv'' then write_np2csv filepath array tstamps fs
               else write_np2pickle filepath array tstamps fs))"

definition read_tpa_file ::
  "reader \<Rightarrow> reader \<Rightarrow> (string \<Rightarrow> error + real) \<Rightarrow> filesystem \<Rightarrow> string
     \<Rightarrow> error + (frame list \<times> real list)" where
  "read_tpa_file csv2np pickle2np float_of fs filepath =
     (case get_extension filepath of
        Inl e \<Rightarrow> Inl e
      | Inr ext \<Rightarrow>
          (case map_of READERS_EXTENSIONS_DICT (lower ext) of
             None \<Rightarrow> Inl AssertionError
           | Some r \<Rightarrow>
               if r = ''txt'' then txt2np float_of fs filepath 32
               else if r = ''csv'' then csv2np fs filepath
               else pickle2np fs filepath))"

text \<open>
  What is read back for a written value: the integer of its text, in hundredths.
\<close>

definition read_back :: "real \<Rightarrow> real" where
  "read_back val = (case parse_int (value_text val) of Inl e \<Rightarrow> 0 | Inr c \<Rightarrow> real_of_int c * (1 / 100))"

text \<open>Stand-ins for the csv and pickle codecs, which the txt round trip never calls.\<close>

definition no_writer :: writer where
  "no_writer fp array tstamps fs = Inl AssertionError"

definition no_reader :: reader where
  "no_reader fs fp = Inl AssertionError"

section \<open>Properties of the timestamp matcher\<close>

lemma argmin_from_cases:
  "(argmin_from best bi i xs = bi \<and> (\<forall>x\<in>set xs. best \<le> x)) \<or>
   (\<exists>k<length xs. argmin_from best bi i xs = i + k \<and> xs ! k < best \<and>
      (\<forall>m<length xs. xs ! k \<le> xs ! m) \<and> (\<forall>m<k. xs ! k < xs ! m))"
proof (induction xs arbitrary: best bi i)
  case Nil
  then show ?case by simp
next
  case (Cons x xs)
  show ?case
  proof (cases "x < best")
    case True
    from Cons.IH[of x i "Suc i"] show ?thesis
    proof
      assume a: "argmin_from x i (Suc i) xs = i \<and> (\<forall>y\<in>set xs. x \<le> y)"
      have "\<forall>m<length (x # xs). (x # xs) ! 0 \<le> (x # xs) ! m"
        using a by (auto simp: nth_Cons split: nat.splits)
      with a True show ?thesis
        by (intro disjI2 exI[of _ 0]) simp
    next
      assume "\<exists>k<length xs. argmin_from x i (Suc i) xs = Suc i + k \<and> xs ! k < x \<and>
        (\<forall>m<length xs. xs ! k \<le> xs ! m) \<and> (\<forall>m<k. xs ! k < xs ! m)"
      then obtain k where k: "k < length xs" "argmin_from x i (Suc i) xs = Suc i + k"
        "xs ! k < x" "\<forall>m<length xs. xs ! k \<le> xs ! m" "\<forall>m<k. xs ! k < xs ! m" by blast
      have 1: "\<forall>m<length (x # xs). (x # xs) ! Suc k \<le> (x # xs) ! m"
        using k by (auto simp: nth_Cons split: nat.splits)
      have 2: "\<forall>m<Suc k. (x # xs) ! Suc k < (x # xs) ! m"
        using k by (auto simp: nth_Cons split: nat.splits)
      from k True 1 2 show ?thesis
        by (intro disjI2 exI[of _ "Suc k"]) auto
    qed
  next
    case False
    from Cons.IH[of best bi "Suc i"] show ?thesis
    proof
      assume a: "argmin_from best bi (Suc i) xs = bi \<and> (\<forall>y\<in>set xs. best \<le> y)"
      with False show ?thesis by auto
    next
      assume "\<exists>k<length xs. argmin_from best bi (Suc i) xs = Suc i + k \<and> xs ! k < best \<and>
        (\<forall>m<length xs. xs ! k \<le> xs ! m) \<and> (\<forall>m<k. xs ! k < xs ! m)"
      then obtain k where k: "k < length xs" "argmin_from best bi (Suc i) xs = Suc i + k"
        "xs ! k < best" "\<forall>m<length xs. xs ! k \<le> xs ! m" "\<forall>m<k. xs ! k < xs ! m" by blast
      have 1: "\<forall>m<length (x # xs). (x # xs) ! Suc k \<le> (x # xs) ! m"
        using k False by (auto simp: nth_Cons split: nat.splits)
      have 2: "\<forall>m<Suc k. (x # xs) ! Suc k < (x # xs) ! m"
        using k False by (auto simp: nth_Cons split: nat.splits)
      from k False 1 2 show ?thesis
        by (intro disjI2 exI[of _ "Suc k"]) auto
    qed
  qed
qed

lemma argmin_from_first_argmin:
  "first_argmin (x # xs) (argmin_from x 0 1 xs)"
proof -
  from argmin_from_cases[of x 0 1 xs] show ?thesis
  proof
    assume a: "argmin_from x 0 1 xs = 0 \<and> (\<forall>y\<in>set xs. x \<le> y)"
    then show ?thesis
      by (auto simp: first_argmin_def nth_Cons split: nat.splits)
  next
    assume "\<exists>k<length xs. argmin_from x 0 1 xs = 1 + k \<and> xs ! k < x \<and>
      (\<forall>m<length xs. xs ! k \<le> xs ! m) \<and> (\<forall>m<k. xs ! k < xs ! m)"
    then obtain k where k: "k < length xs" "argmin_from x 0 1 xs = Suc k"
      "xs ! k < x" "\<forall>m<length xs. xs ! k \<le> xs ! m" "\<forall>m<k. xs ! k < xs ! m" by auto
    show ?thesis
      unfolding first_argmin_def using k
      by (auto simp: nth_Cons split: nat.splits)
  qed
qed

lemma argmin_first_argmin:
  "xs \<noteq> [] \<Longrightarrow> \<exists>r. argmin xs = Inr r \<and> first_argmin xs r"
  using argmin_from_first_argmin[of "hd xs" "tl xs"]
  by (cases xs) (simp_all add: argmin_def)


lemma cdist_abs: "cdist xs ys = map (\<lambda>a. map (\<lambda>b. \<bar>a - b\<bar>) ys) xs"
  by (simp add: cdist_def)

lemma first_argmin_nearest:
  "first_argmin (map (\<lambda>b. \<bar>t - b\<bar>) ts) k \<Longrightarrow> nearest_first ts t k"
  unfolding first_argmin_def nearest_first_def
  by (auto simp: abs_minus_commute)

lemma argmin_rows_ok:
  assumes "ts \<noteq> []"
  shows "\<exists>ids. argmin_rows ref ts = Inr ids \<and> length ids = length ref \<and>
           (\<forall>j<length ref. nearest_first ts (ref ! j) (ids ! j))"
proof -
  obtain b bs where ts: "ts = b # bs" using assms by (cases ts) auto
  have "nearest_first ts (ref ! j) (argmin_from (hd (map (\<lambda>b. \<bar>ref ! j - b\<bar>) ts)) 0 1
          (tl (map (\<lambda>b. \<bar>ref ! j - b\<bar>) ts)))" for j
    using argmin_from_first_argmin[of "\<bar>ref ! j - b\<bar>" "map (\<lambda>b. \<bar>ref ! j - b\<bar>) bs"]
    by (intro first_argmin_nearest) (simp add: ts)
  then show ?thesis
    using assms by (simp add: argmin_rows_def cdist_abs)
qed

lemma match_loop_ok:
  assumes "[] \<notin> set tss"
  shows "\<exists>out. match_loop r ref idx tss = Inr out \<and> length out = length tss \<and>
           (\<forall>i<length tss. if idx + i = r then out ! i = [0 ..< length ref]
                            else argmin_rows ref (tss ! i) = Inr (out ! i))"
  using assms
proof (induction tss arbitrary: idx)
  case Nil
  then show ?case by simp
next
  case (Cons ts tss)
  from Cons.prems have ne: "ts \<noteq> []" and rest: "[] \<notin> set tss" by auto
  from Cons.IH[OF rest, of "Suc idx"] obtain out where
    out: "match_loop r ref (Suc idx) tss = Inr out" "length out = length tss"
      "\<forall>i<length tss. if Suc idx + i = r then out ! i = [0 ..< length ref]
                        else argmin_rows ref (tss ! i) = Inr (out ! i)" by blast
  from argmin_rows_ok[OF ne, of ref] obtain ids where ids: "argmin_rows ref ts = Inr ids" by blast
  define h where "h = (if idx = r then [0 ..< length ref] else ids)"
  have run: "match_loop r ref idx (ts # tss) = Inr (h # out)"
    using out(1) ids by (cases "idx = r") (simp_all add: h_def)
  have "\<forall>i<length (ts # tss). if idx + i = r then (h # out) ! i = [0 ..< length ref]
          else argmin_rows ref ((ts # tss) ! i) = Inr ((h # out) ! i)"
  proof (intro allI impI)
    fix i assume "i < length (ts # tss)"
    then show "if idx + i = r then (h # out) ! i = [0 ..< length ref]
          else argmin_rows ref ((ts # tss) ! i) = Inr ((h # out) ! i)"
      using out(3) ids by (cases i) (auto simp: h_def)
  qed
  with run out(2) show ?case by simp
qed


lemma match_timesteps_char:
  assumes "tss \<noteq> []" and "[] \<notin> set tss"
  shows "\<exists>r out. match_timesteps tss = Inr out \<and> first_argmin (map length tss) r \<and>
           length out = length tss \<and> out ! r = [0 ..< length (tss ! r)] \<and>
           (\<forall>i<length tss. i \<noteq> r \<longrightarrow> length (out ! i) = length (tss ! r) \<and>
              (\<forall>j<length (tss ! r). nearest_first (tss ! i) (tss ! r ! j) (out ! i ! j)))"
proof -
  from assms(1) have "map length tss \<noteq> []" by simp
  from argmin_first_argmin[OF this] obtain r where
    r: "argmin (map length tss) = Inr r" "first_argmin (map length tss) r" by blast
  then have rlt: "r < length tss" by (simp add: first_argmin_def)
  from match_loop_ok[OF assms(2), of r "tss ! r" 0] obtain out where
    out: "match_loop r (tss ! r) 0 tss = Inr out" "length out = length tss"
      "\<forall>i<length tss. if 0 + i = r then out ! i = [0 ..< length (tss ! r)]
                        else argmin_rows (tss ! r) (tss ! i) = Inr (out ! i)" by blast
  have run: "match_timesteps tss = Inr out"
    using r(1) out(1) by (simp add: match_timesteps_def)
  have ref: "out ! r = [0 ..< length (tss ! r)]"
    using out(3) rlt by auto
  have others: "length (out ! i) = length (tss ! r) \<and>
      (\<forall>j<length (tss ! r). nearest_first (tss ! i) (tss ! r ! j) (out ! i ! j))"
    if "i < length tss" "i \<noteq> r" for i
  proof -
    from that out(3) have a: "argmin_rows (tss ! r) (tss ! i) = Inr (out ! i)" by auto
    from that(1) assms(2) have "tss ! i \<noteq> []" by (metis nth_mem)
    from argmin_rows_ok[OF this, of "tss ! r"] a show ?thesis by auto
  qed
  from run r(2) out(2) ref others show ?thesis by blast
qed


lemma match_timesteps_docstring_example:
  "match_timesteps [[1, 2, 3, 4, 5], [1.1, 2.1, 2.9, 3.6, 5.1, 6, 6.1],
     [0.9, 1.2, 2, 3, 4.1, 4.2, 4.3, 4.9]]
   = Inr [[0, 1, 2, 3, 4], [0, 1, 2, 3, 4], [0, 2, 3, 4, 7]]"
  by (simp add: match_timesteps_def argmin_def argmin_rows_def cdist_abs upt_rec)

text \<open>
  Claim C1.  For at least two nonempty timestamp sequences, \<open>match_timesteps\<close> returns
  index lists, one per input; the reference \<open>r\<close> is the first input of minimum length
  and is mapped to the identity indices \<open>0..len-1\<close>; every index list has the length of
  the reference; and for every other input the index at reference position \<open>j\<close> is the
  first position whose timestamp has minimum absolute difference to reference
  timestamp \<open>j\<close>.
\<close>

theorem match_timesteps_reference_nearest:
  assumes "2 \<le> length tss" and "[] \<notin> set tss"
  shows "\<exists>r out. match_timesteps tss = Inr out \<and> r < length tss \<and>
           (\<forall>i<length tss. length (tss ! r) \<le> length (tss ! i)) \<and>
           (\<forall>i<r. length (tss ! r) < length (tss ! i)) \<and>
           length out = length tss \<and> out ! r = [0 ..< length (tss ! r)] \<and>
           (\<forall>i<length tss. length (out ! i) = length (tss ! r)) \<and>
           (\<forall>i<length tss. i \<noteq> r \<longrightarrow>
              (\<forall>j<length (tss ! r). nearest_first (tss ! i) (tss ! r ! j) (out ! i ! j)))"
proof -
  from assms(1) have ne: "tss \<noteq> []" by auto
  from match_timesteps_char[OF ne assms(2)] obtain r out where
    h: "match_timesteps tss = Inr out" "first_argmin (map length tss) r"
      "length out = length tss" "out ! r = [0 ..< length (tss ! r)]"
      "\<forall>i<length tss. i \<noteq> r \<longrightarrow> length (out ! i) = length (tss ! r) \<and>
         (\<forall>j<length (tss ! r). nearest_first (tss ! i) (tss ! r ! j) (out ! i ! j))"
    by blast
  from h(2) have r: "r < length tss"
    and mn: "\<forall>i<length tss. length (tss ! r) \<le> length (tss ! i)"
    and fst: "\<forall>i<r. length (tss ! r) < length (tss ! i)"
    by (auto simp: first_argmin_def)
  have len: "\<forall>i<length tss. length (out ! i) = length (tss ! r)"
  proof (intro allI impI)
    fix i assume "i < length tss"
    then show "length (out ! i) = length (tss ! r)"
      using h(4) h(5) by (cases "i = r") auto
  qed
  from h(1) r mn fst h(3) h(4) len h(5) show ?thesis by blast
qed

theorem match_timesteps_reference_nearest_witness:
  "2 \<le> length [[1, 2, 3, 4, 5], [1.1, 2.1, 2.9, 3.6, 5.1, 6, 6.1 :: real]] \<and>
   [] \<notin> set [[1, 2, 3, 4, 5], [1.1, 2.1, 2.9, 3.6, 5.1, 6, 6.1 :: real]] \<and>
   (\<exists>r out. match_timesteps [[1, 2, 3, 4, 5], [1.1, 2.1, 2.9, 3.6, 5.1, 6, 6.1]] = Inr out \<and>
      r < 2 \<and> length out = 2 \<and>
      (\<forall>i<2. length (out ! i) = length ([[1, 2, 3, 4, 5], [1.1, 2.1, 2.9, 3.6, 5.1, 6, 6.1 :: real]] ! r)))"
proof -
  define tss where "tss = [[1, 2, 3, 4, 5], [1.1, 2.1, 2.9, 3.6, 5.1, 6, 6.1 :: real]]"
  have h1: "2 \<le> length tss" by (simp add: tss_def)
  have h2: "[] \<notin> set tss" by (simp add: tss_def)
  from match_timesteps_reference_nearest[OF h1 h2] obtain r out where
    h: "match_timesteps tss = Inr out" "r < length tss" "length out = length tss"
      "\<forall>i<length tss. length (out ! i) = length (tss ! r)"
    by blast
  have l: "length tss = 2" by (simp add: tss_def)
  from h have "match_timesteps tss = Inr out \<and> r < 2 \<and> length out = 2 \<and>
      (\<forall>i<2. length (out ! i) = length (tss ! r))"
    unfolding l by blast
  then have "\<exists>r out. match_timesteps tss = Inr out \<and> r < 2 \<and> length out = 2 \<and>
      (\<forall>i<2. length (out ! i) = length (tss ! r))" by blast
  with h1 h2 show ?thesis unfolding tss_def by blast
qed

text \<open>
  Claim C9.  For nonempty input sequences every index returned by \<open>match_timesteps\<close>
  is in range for the sequence it belongs to, so indexing each original sequence by
  its index list succeeds.
\<close>

theorem match_timesteps_indices_in_range:
  assumes "tss \<noteq> []" and "[] \<notin> set tss"
  shows "\<exists>out. match_timesteps tss = Inr out \<and> length out = length tss \<and>
           (\<forall>i<length tss. (\<forall>j<length (out ! i). out ! i ! j < length (tss ! i)) \<and>
              take_idx (tss ! i) (out ! i) = Inr (map (\<lambda>k. tss ! i ! k) (out ! i)))"
proof -
  from match_timesteps_char[OF assms] obtain r out where
    h: "match_timesteps tss = Inr out" "first_argmin (map length tss) r"
      "length out = length tss" "out ! r = [0 ..< length (tss ! r)]"
      "\<forall>i<length tss. i \<noteq> r \<longrightarrow> length (out ! i) = length (tss ! r) \<and>
         (\<forall>j<length (tss ! r). nearest_first (tss ! i) (tss ! r ! j) (out ! i ! j))"
    by blast
  have rng: "\<forall>j<length (out ! i). out ! i ! j < length (tss ! i)" if "i < length tss" for i
  proof (cases "i = r")
    case True
    with h(4) show ?thesis by simp
  next
    case False
    with that h(5) show ?thesis by (auto simp: nearest_first_def)
  qed
  have "take_idx (tss ! i) (out ! i) = Inr (map (\<lambda>k. tss ! i ! k) (out ! i))"
    if "i < length tss" for i
    using rng[OF that] by (simp add: take_idx_def list_all_length)
  with rng h(1) h(3) show ?thesis by blast
qed

theorem match_timesteps_indices_in_range_witness:
  "[[1, 2, 3], [0.5, 2.5 :: real]] \<noteq> [] \<and> [] \<notin> set [[1, 2, 3], [0.5, 2.5 :: real]] \<and>
   (\<exists>out. match_timesteps [[1, 2, 3], [0.5, 2.5]] = Inr out \<and> length out = 2 \<and>
      (\<forall>i<2. \<forall>j<length (out ! i). out ! i ! j < length ([[1, 2, 3], [0.5, 2.5 :: real]] ! i)))"
proof -
  have h1: "[[1, 2, 3], [0.5, 2.5 :: real]] \<noteq> []" by simp
  have h2: "[] \<notin> set [[1, 2, 3], [0.5, 2.5 :: real]]" by simp
  from match_timesteps_indices_in_range[OF h1 h2] show ?thesis
    using h1 h2 by auto
qed

section \<open>Properties of sample alignment\<close>

lemma align_loop_ok:
  assumes "distinct js"
    and "\<forall>i\<in>set js. i < length indexes \<and> i < length (arrays s) \<and> i < length (timestamps s) \<and>
           (\<forall>k\<in>set (indexes ! i). k < length (arrays s ! i) \<and> k < length (timestamps s ! i))"
  shows "\<exists>s'. align_loop indexes js s = Inr s' \<and> ids s' = ids s \<and> filepaths s' = filepaths s \<and>
           length (arrays s') = length (arrays s) \<and>
           length (timestamps s') = length (timestamps s) \<and>
           (\<forall>i<length (timestamps s). timestamps s' ! i =
              (if i \<in> set js then map (\<lambda>k. timestamps s ! i ! k) (indexes ! i)
               else timestamps s ! i)) \<and>
           (\<forall>i<length (arrays s). arrays s' ! i =
              (if i \<in> set js then map (\<lambda>k. arrays s ! i ! k) (indexes ! i)
               else arrays s ! i))"
  using assms
proof (induction js arbitrary: s)
  case Nil
  then show ?case by simp
next
  case (Cons i js)
  let ?a = "map (\<lambda>k. arrays s ! i ! k) (indexes ! i)"
  let ?t = "map (\<lambda>k. timestamps s ! i ! k) (indexes ! i)"
  let ?s1 = "s\<lparr>arrays := (arrays s)[i := ?a], timestamps := (timestamps s)[i := ?t]\<rparr>"
  from Cons.prems have i: "i < length indexes" "i < length (arrays s)" "i < length (timestamps s)"
    and ik: "\<forall>k\<in>set (indexes ! i). k < length (arrays s ! i) \<and> k < length (timestamps s ! i)"
    and nin: "i \<notin> set js" and dist: "distinct js"
    by auto
  have ta: "take_idx (arrays s ! i) (indexes ! i) = Inr ?a"
    using ik by (simp add: take_idx_def list_all_iff)
  have tt: "take_idx (timestamps s ! i) (indexes ! i) = Inr ?t"
    using ik by (simp add: take_idx_def list_all_iff)
  have step: "align_loop indexes (i # js) s = align_loop indexes js ?s1"
    using i ta tt by simp
  have pre: "\<forall>j\<in>set js. j < length indexes \<and> j < length (arrays ?s1) \<and>
      j < length (timestamps ?s1) \<and>
      (\<forall>k\<in>set (indexes ! j). k < length (arrays ?s1 ! j) \<and> k < length (timestamps ?s1 ! j))"
  proof
    fix j assume j: "j \<in> set js"
    with nin have "j \<noteq> i" by auto
    with j Cons.prems(2) show "j < length indexes \<and> j < length (arrays ?s1) \<and>
      j < length (timestamps ?s1) \<and>
      (\<forall>k\<in>set (indexes ! j). k < length (arrays ?s1 ! j) \<and> k < length (timestamps ?s1 ! j))"
      by simp
  qed
  from Cons.IH[OF dist pre] obtain s' where
    s': "align_loop indexes js ?s1 = Inr s'" "ids s' = ids ?s1" "filepaths s' = filepaths ?s1"
      "length (arrays s') = length (arrays ?s1)" "length (timestamps s') = length (timestamps ?s1)"
      "\<forall>j<length (timestamps ?s1). timestamps s' ! j =
         (if j \<in> set js then map (\<lambda>k. timestamps ?s1 ! j ! k) (indexes ! j)
          else timestamps ?s1 ! j)"
      "\<forall>j<length (arrays ?s1). arrays s' ! j =
         (if j \<in> set js then map (\<lambda>k. arrays ?s1 ! j ! k) (indexes ! j)
          else arrays ?s1 ! j)"
    by blast
  have T: "\<forall>j<length (timestamps s). timestamps s' ! j =
      (if j \<in> set (i # js) then map (\<lambda>k. timestamps s ! j ! k) (indexes ! j)
       else timestamps s ! j)"
  proof (intro allI impI)
    fix j assume "j < length (timestamps s)"
    then show "timestamps s' ! j =
      (if j \<in> set (i # js) then map (\<lambda>k. timestamps s ! j ! k) (indexes ! j)
       else timestamps s ! j)"
      using s'(6) nin by (cases "j = i") auto
  qed
  have A: "\<forall>j<length (arrays s). arrays s' ! j =
      (if j \<in> set (i # js) then map (\<lambda>k. arrays s ! j ! k) (indexes ! j)
       else arrays s ! j)"
  proof (intro allI impI)
    fix j assume "j < length (arrays s)"
    then show "arrays s' ! j =
      (if j \<in> set (i # js) then map (\<lambda>k. arrays s ! j ! k) (indexes ! j)
       else arrays s ! j)"
      using s'(7) nin by (cases "j = i") auto
  qed
  from step s' T A show ?case by simp
qed


lemma match_timesteps_shape:
  assumes "tss \<noteq> []" and "[] \<notin> set tss"
  shows "\<exists>r out. match_timesteps tss = Inr out \<and> r < length tss \<and> length out = length tss \<and>
           (\<forall>i<length tss. length (out ! i) = length (tss ! r) \<and>
              (\<forall>k\<in>set (out ! i). k < length (tss ! i)))"
proof -
  from match_timesteps_char[OF assms] obtain r out where
    h: "match_timesteps tss = Inr out" "first_argmin (map length tss) r"
      "length out = length tss" "out ! r = [0 ..< length (tss ! r)]"
      "\<forall>i<length tss. i \<noteq> r \<longrightarrow> length (out ! i) = length (tss ! r) \<and>
         (\<forall>j<length (tss ! r). nearest_first (tss ! i) (tss ! r ! j) (out ! i ! j))"
    by blast
  from h(2) have r: "r < length tss" by (simp add: first_argmin_def)
  have "length (out ! i) = length (tss ! r) \<and> (\<forall>k\<in>set (out ! i). k < length (tss ! i))"
    if "i < length tss" for i
  proof (cases "i = r")
    case True
    with h(4) show ?thesis by simp
  next
    case False
    with that h(5) have l: "length (out ! i) = length (tss ! r)"
      and n: "\<forall>j<length (out ! i). nearest_first (tss ! i) (tss ! r ! j) (out ! i ! j)"
      by auto
    from n have "\<forall>j<length (out ! i). out ! i ! j < length (tss ! i)"
      by (simp add: nearest_first_def)
    then have "\<forall>k\<in>set (out ! i). k < length (tss ! i)"
      by (auto simp: in_set_conv_nth)
    with l show ?thesis by simp
  qed
  with h(1) r h(3) show ?thesis by blast
qed

lemma align_no_reset:
  assumes "well_formed s"
  shows "\<exists>r s0. align_timesteps False s = Inr s0 \<and> r < length (timestamps s) \<and>
           ids s0 = ids s \<and> filepaths s0 = filepaths s \<and>
           length (timestamps s0) = length (timestamps s) \<and>
           length (arrays s0) = length (timestamps s) \<and>
           (\<forall>i<length (timestamps s).
              length (timestamps s0 ! i) = length (timestamps s ! r) \<and>
              length (arrays s0 ! i) = length (timestamps s ! r))"
proof -
  let ?tss = "timestamps s"
  from assms have ne: "?tss \<noteq> []" and nn: "[] \<notin> set ?tss"
    and li: "length (ids s) = length ?tss"
    and la: "map length (arrays s) = map length ?tss"
    by (simp_all add: well_formed_def)
  from la have la1: "length (arrays s) = length ?tss" by (metis length_map)
  from la have la2: "\<forall>i<length ?tss. length (arrays s ! i) = length (?tss ! i)"
    by (metis la1 nth_map)
  from match_timesteps_shape[OF ne nn] obtain r out where
    m: "match_timesteps ?tss = Inr out" "r < length ?tss" "length out = length ?tss"
      "\<forall>i<length ?tss. length (out ! i) = length (?tss ! r) \<and>
         (\<forall>k\<in>set (out ! i). k < length (?tss ! i))"
    by blast
  have pre: "\<forall>i\<in>set [0 ..< length (ids s)]. i < length out \<and> i < length (arrays s) \<and>
      i < length ?tss \<and>
      (\<forall>k\<in>set (out ! i). k < length (arrays s ! i) \<and> k < length (?tss ! i))"
    using li la1 la2 m(3) m(4) by simp
  from align_loop_ok[OF distinct_upt pre] obtain s0 where
    s0: "align_loop out [0 ..< length (ids s)] s = Inr s0" "ids s0 = ids s"
      "filepaths s0 = filepaths s"
      "length (arrays s0) = length (arrays s)" "length (timestamps s0) = length ?tss"
      "\<forall>i<length ?tss. timestamps s0 ! i =
         (if i \<in> set [0 ..< length (ids s)] then map (\<lambda>k. ?tss ! i ! k) (out ! i)
          else ?tss ! i)"
      "\<forall>i<length (arrays s). arrays s0 ! i =
         (if i \<in> set [0 ..< length (ids s)] then map (\<lambda>k. arrays s ! i ! k) (out ! i)
          else arrays s ! i)"
    by blast
  have run: "align_timesteps False s = Inr s0"
    using m(1) s0(1) by (simp add: align_timesteps_def)
  have "length (timestamps s0 ! i) = length (?tss ! r) \<and>
        length (arrays s0 ! i) = length (?tss ! r)" if "i < length ?tss" for i
    using that s0(6) s0(7) li la1 m(4) by simp
  with run m(2) s0(2,3,4,5) la1 show ?thesis by auto
qed

lemma np_min_Min: "xs \<noteq> [] \<Longrightarrow> np_min xs = Inr (Min (set xs))"
  by (cases xs) (simp_all add: np_min_def Min.set_eq_fold[symmetric] del: set_simps)

lemma align_reset:
  assumes "well_formed s" and "align_timesteps False s = Inr s0"
  shows "\<exists>m. first_timestamps (timestamps s0) = Inr (map hd (timestamps s0)) \<and>
           np_min (map hd (timestamps s0)) = Inr m \<and>
           m = Min (set (map hd (timestamps s0))) \<and>
           align_timesteps True s =
             Inr (s0\<lparr>timestamps := map (map (\<lambda>t. t - m)) (timestamps s0)\<rparr>)"
proof -
  from align_no_reset[OF assms(1)] assms(2) obtain r where
    r: "r < length (timestamps s)" "length (timestamps s0) = length (timestamps s)"
      "\<forall>i<length (timestamps s). length (timestamps s0 ! i) = length (timestamps s ! r)"
    by auto
  from assms(1) r(1) have "timestamps s ! r \<noteq> []"
    by (metis nth_mem well_formed_def)
  with r have nn: "[] \<notin> set (timestamps s0)"
    by (auto simp: in_set_conv_nth)
  from r(1,2) have ne: "map hd (timestamps s0) \<noteq> []" by auto
  have f: "first_timestamps (timestamps s0) = Inr (map hd (timestamps s0))"
    using nn by (simp add: first_timestamps_def)
  from assms(2) obtain out where
    o: "match_timesteps (timestamps s) = Inr out"
       "align_loop out [0 ..< length (ids s)] s = Inr s0"
    by (auto simp: align_timesteps_def split: sum.splits)
  have "align_timesteps True s =
      Inr (s0\<lparr>timestamps := map (map (\<lambda>t. t - Min (set (map hd (timestamps s0))))) (timestamps s0)\<rparr>)"
    using o f np_min_Min[OF ne] by (simp add: align_timesteps_def)
  with f np_min_Min[OF ne] show ?thesis by blast
qed


lemma test_alignment_equal_lengths:
  assumes "\<forall>i<length (timestamps s). length (timestamps s ! i) = L"
  shows "test_alignment s"
proof (cases "timestamps s")
  case Nil
  then show ?thesis by (simp add: test_alignment_def)
next
  case (Cons ts rest)
  have "\<forall>x\<in>set (timestamps s). length x = L"
    using assms by (auto simp: in_set_conv_nth)
  then show ?thesis
    using Cons by (simp add: test_alignment_def list_all_iff)
qed

text \<open>
  Claim C2 (amended).  For a data-backed sample with at least one view, one id, one
  array and one nonempty timestamp list per view, and as many frames as timestamps in
  every view, \<open>align_timesteps\<close> (with or without \<open>reset_T0\<close>) succeeds, and afterwards
  \<open>test_alignment\<close> is true: all timestamp lists and all arrays have one common length.
\<close>

theorem align_timesteps_then_test_alignment:
  assumes "well_formed s"
  shows "\<exists>s'. align_timesteps reset_T0 s = Inr s' \<and> test_alignment s' \<and>
           length (timestamps s') = length (timestamps s) \<and>
           length (arrays s') = length (timestamps s) \<and>
           (\<exists>L. \<forall>i<length (timestamps s).
              length (timestamps s' ! i) = L \<and> length (arrays s' ! i) = L)"
proof -
  from align_no_reset[OF assms] obtain r s0 where
    s0: "align_timesteps False s = Inr s0" "length (timestamps s0) = length (timestamps s)"
      "length (arrays s0) = length (timestamps s)"
      "\<forall>i<length (timestamps s).
          length (timestamps s0 ! i) = length (timestamps s ! r) \<and>
          length (arrays s0 ! i) = length (timestamps s ! r)"
    by blast
  show ?thesis
  proof (cases reset_T0)
    case False
    have "test_alignment s0"
      using s0(2) s0(4) by (intro test_alignment_equal_lengths[of _ "length (timestamps s ! r)"]) simp
    moreover have "\<exists>L. \<forall>i<length (timestamps s).
        length (timestamps s0 ! i) = L \<and> length (arrays s0 ! i) = L"
      using s0(4) by blast
    ultimately show ?thesis using False s0(1,2,3) by simp
  next
    case True
    from align_reset[OF assms s0(1)] obtain m where
      m: "align_timesteps True s =
            Inr (s0\<lparr>timestamps := map (map (\<lambda>t. t - m)) (timestamps s0)\<rparr>)"
      by blast
    let ?s1 = "s0\<lparr>timestamps := map (map (\<lambda>t. t - m)) (timestamps s0)\<rparr>"
    have l1: "\<forall>i<length (timestamps s).
        length (timestamps ?s1 ! i) = length (timestamps s ! r) \<and>
        length (arrays ?s1 ! i) = length (timestamps s ! r)"
      using s0(2) s0(4) by simp
    have "test_alignment ?s1"
      using s0(2) l1 by (intro test_alignment_equal_lengths[of _ "length (timestamps s ! r)"]) simp
    moreover have "length (timestamps ?s1) = length (timestamps s)"
      "length (arrays ?s1) = length (timestamps s)"
      using s0(2,3) by simp_all
    moreover have "\<exists>L. \<forall>i<length (timestamps s).
        length (timestamps ?s1 ! i) = L \<and> length (arrays ?s1 ! i) = L"
      using l1 by blast
    ultimately show ?thesis using True m by simp
  qed
qed

theorem align_timesteps_then_test_alignment_witness:
  "well_formed two_views \<and>
   (\<exists>s'. align_timesteps True two_views = Inr s' \<and> test_alignment s' \<and>
      length (timestamps s') = 2)"
proof -
  have wf: "well_formed two_views"
    by (simp add: well_formed_def two_views_def TPA_Sample_from_data_def)
  have "length (timestamps two_views) = 2"
    by (simp add: two_views_def TPA_Sample_from_data_def)
  with align_timesteps_then_test_alignment[OF wf, of True] wf show ?thesis
    by auto
qed

text \<open>
  The claim as stated ranges over any number of views.  On a sample without views
  \<open>match_timesteps\<close> takes the argmin of an empty array of lengths and raises, so
  \<open>align_timesteps\<close> does not return.
\<close>

theorem align_timesteps_no_views_counterexample:
  "align_timesteps False (TPA_Sample_from_data [] [] [] None) = Inl ValueError \<and>
   align_timesteps True (TPA_Sample_from_data [] [] [] None) = Inl ValueError"
  by (simp add: align_timesteps_def TPA_Sample_from_data_def match_timesteps_def argmin_def)

lemma two_views_aligned:
  "align_timesteps True two_views =
     Inr \<lparr>filepaths = None, ids = [''0'', ''1''],
          arrays = [[[[20]], [[22]]], [[[30]], [[31]]]],
          timestamps = [[0, 2], [0.2, 1.9]]\<rparr>"
  by (simp add: align_timesteps_def two_views_def TPA_Sample_from_data_def match_timesteps_def
      argmin_def argmin_rows_def cdist_abs take_idx_def first_timestamps_def np_min_def upt_rec)

text \<open>
  Claim C3.  For a well-formed data-backed sample, \<open>align_timesteps\<close> with \<open>reset_T0\<close>
  succeeds; afterwards the minimum of the views' first timestamps is \<open>0\<close>; the arrays
  are those of the alignment without reset, and every timestamp sequence is the
  aligned sequence shifted by one common constant \<open>m\<close>, so the differences between the
  views' timestamps at each position are preserved.
\<close>

theorem align_timesteps_reset_T0:
  assumes "well_formed s"
  shows "\<exists>s0 s1 m fs. align_timesteps False s = Inr s0 \<and> align_timesteps True s = Inr s1 \<and>
           first_timestamps (timestamps s1) = Inr fs \<and> np_min fs = Inr 0 \<and>
           arrays s1 = arrays s0 \<and>
           timestamps s1 = map (map (\<lambda>t. t - m)) (timestamps s0) \<and>
           (\<forall>i<length (timestamps s0). \<forall>j<length (timestamps s0).
              \<forall>k<length (timestamps s0 ! i). k < length (timestamps s0 ! j) \<longrightarrow>
                timestamps s1 ! i ! k - timestamps s1 ! j ! k =
                timestamps s0 ! i ! k - timestamps s0 ! j ! k)"
proof -
  from align_no_reset[OF assms] obtain r s0 where
    s0: "align_timesteps False s = Inr s0" "r < length (timestamps s)"
      "length (timestamps s0) = length (timestamps s)"
      "\<forall>i<length (timestamps s). length (timestamps s0 ! i) = length (timestamps s ! r)"
    by blast
  from align_reset[OF assms s0(1)] obtain m where
    m: "first_timestamps (timestamps s0) = Inr (map hd (timestamps s0))"
      "m = Min (set (map hd (timestamps s0)))"
      "align_timesteps True s =
         Inr (s0\<lparr>timestamps := map (map (\<lambda>t. t - m)) (timestamps s0)\<rparr>)"
    by blast
  let ?tss0 = "timestamps s0"
  let ?s1 = "s0\<lparr>timestamps := map (map (\<lambda>t. t - m)) ?tss0\<rparr>"
  from m(1) have nn: "[] \<notin> set ?tss0"
    by (auto simp: first_timestamps_def split: if_splits)
  from s0(2,3) have ne: "?tss0 \<noteq> []" by auto
  have hd1: "map hd (map (map (\<lambda>t. t - m)) ?tss0) = map (\<lambda>t. t - m) (map hd ?tss0)"
  proof -
    have "hd (map (\<lambda>t. t - m) x) = hd x - m" if "x \<in> set ?tss0" for x
    proof -
      from that nn have "x \<noteq> []" by auto
      then show ?thesis by (simp add: hd_map)
    qed
    then show ?thesis by simp
  qed
  have f1: "first_timestamps (timestamps ?s1) = Inr (map (\<lambda>t. t - m) (map hd ?tss0))"
  proof -
    have "[] \<notin> set (map (map (\<lambda>t. t - m)) ?tss0)" using nn by auto
    then show ?thesis using hd1 by (simp add: first_timestamps_def)
  qed
  have "Min (set (map (\<lambda>t. t - m) (map hd ?tss0))) = Min ((\<lambda>t. t - m) ` set (map hd ?tss0))"
    by (simp only: set_map)
  also have "\<dots> = Min (set (map hd ?tss0)) - m"
    using ne by (intro mono_Min_commute[symmetric]) (auto simp: mono_def)
  also have "\<dots> = 0" using m(2) by simp
  finally have "Min (set (map (\<lambda>t. t - m) (map hd ?tss0))) = 0" .
  moreover have "map (\<lambda>t. t - m) (map hd ?tss0) \<noteq> []" using ne by simp
  ultimately have mn: "np_min (map (\<lambda>t. t - m) (map hd ?tss0)) = Inr 0"
    using np_min_Min by metis
  have diff: "\<forall>i<length ?tss0. \<forall>j<length ?tss0.
      \<forall>k<length (?tss0 ! i). k < length (?tss0 ! j) \<longrightarrow>
        timestamps ?s1 ! i ! k - timestamps ?s1 ! j ! k = ?tss0 ! i ! k - ?tss0 ! j ! k"
    by simp
  have "arrays ?s1 = arrays s0" "timestamps ?s1 = map (map (\<lambda>t. t - m)) ?tss0"
    by simp_all
  with s0(1) m(3) f1 mn diff show ?thesis by blast
qed

theorem align_timesteps_reset_T0_witness:
  "well_formed two_views \<and>
   (\<exists>s1 fs. align_timesteps True two_views = Inr s1 \<and>
      first_timestamps (timestamps s1) = Inr fs \<and> np_min fs = Inr 0)"
proof -
  have wf: "well_formed two_views"
    by (simp add: well_formed_def two_views_def TPA_Sample_from_data_def)
  from align_timesteps_reset_T0[OF wf] wf show ?thesis by blast
qed

section \<open>Properties of prefix and view-id extraction\<close>

lemma py_split_ne: "py_split sep s \<noteq> []"
  by (induction sep s rule: py_split.induct) (auto split: list.splits)

lemma py_split_ID_token:
  "py_split ''ID'' (CHR ''I'' # CHR ''D'' # r) = [] # py_split ''ID'' r"
  by simp

lemma py_split_ID_other:
  assumes "\<not> prefix ''ID'' (c # cs)"
  shows "py_split ''ID'' (c # cs) = (c # hd (py_split ''ID'' cs)) # tl (py_split ''ID'' cs)"
  using assms py_split_ne[of "''ID''" cs] by (cases "py_split ''ID'' cs") simp_all

lemma prefix_ID_cases:
  assumes "prefix ''ID'' s"
  obtains r where "s = CHR ''I'' # CHR ''D'' # r"
  using assms by (auto simp: prefix_def)

lemma py_split_ID_induct [case_names Nil Token Other]:
  assumes "P []"
    and "\<And>r. P r \<Longrightarrow> P (CHR ''I'' # CHR ''D'' # r)"
    and "\<And>c cs. \<not> prefix ''ID'' (c # cs) \<Longrightarrow> P cs \<Longrightarrow> P (c # cs)"
  shows "P s"
proof (induction s rule: length_induct)
  case (1 s)
  show ?case
  proof (cases s)
    case Nil
    with assms(1) show ?thesis by simp
  next
    case (Cons c cs)
    show ?thesis
    proof (cases "prefix ''ID'' s")
      case True
      then obtain r where r: "s = CHR ''I'' # CHR ''D'' # r" by (rule prefix_ID_cases)
      with 1 have "P r" by simp
      with assms(2) r show ?thesis by simp
    next
      case False
      from 1 Cons have "P cs" by simp
      with assms(3) False Cons show ?thesis by simp
    qed
  qed
qed

lemma py_split_ID_length: "length (py_split ''ID'' s) = Suc (count_occ ''ID'' s)"
proof (induction s rule: py_split_ID_induct)
  case Nil
  show ?case by simp
next
  case (Token r)
  then show ?case by simp
next
  case (Other c cs)
  then show ?case by (simp add: py_split_ID_other del: py_split.simps)
qed

lemma py_join_split_ID: "py_join ''ID'' (py_split ''ID'' s) = s"
proof (induction s rule: py_split_ID_induct)
  case Nil
  show ?case by simp
next
  case (Token r)
  then show ?case
    using py_split_ne[of "''ID''" r] by (cases "py_split ''ID'' r") simp_all
next
  case (Other c cs)
  obtain p ps where p: "py_split ''ID'' cs = p # ps"
    using py_split_ne[of "''ID''" cs] by (cases "py_split ''ID'' cs") auto
  have "py_join ''ID'' ((c # p) # ps) = c # py_join ''ID'' (p # ps)"
    by (cases ps) simp_all
  with Other p show ?case by (simp add: py_split_ID_other del: py_split.simps)
qed

lemma py_join_Cons_hd:
  "ps \<noteq> [] \<Longrightarrow> \<exists>t. py_join sep ((c # p) # tl ps) = c # t"
  by (cases "tl ps") simp_all

lemma split_hd_is_prefix: "prefix (hd (py_split ''ID'' s)) s"
proof -
  obtain p ps where p: "py_split ''ID'' s = p # ps"
    using py_split_ne[of "''ID''" s] by (cases "py_split ''ID'' s") auto
  have "prefix p (py_join ''ID'' (p # ps))" by (cases ps) simp_all
  with p py_join_split_ID[of s] show ?thesis by simp
qed

lemma count_occ_hd_split: "count_occ ''ID'' (hd (py_split ''ID'' s)) = 0"
proof (induction s rule: py_split_ID_induct)
  case Nil
  show ?case by simp
next
  case (Token r)
  show ?case by simp
next
  case (Other c cs)
  have "\<not> prefix ''ID'' (c # hd (py_split ''ID'' cs))"
  proof
    assume "prefix ''ID'' (c # hd (py_split ''ID'' cs))"
    moreover have "prefix (c # hd (py_split ''ID'' cs)) (c # cs)"
      using split_hd_is_prefix[of cs] by simp
    ultimately have "prefix ''ID'' (c # cs)" by (rule prefix_order.trans)
    with Other(1) show False by blast
  qed
  then have "count_occ ''ID'' (c # hd (py_split ''ID'' cs)) = count_occ ''ID'' (hd (py_split ''ID'' cs))"
    by (simp only: count_occ.simps if_False add_0)
  with Other(2) show ?case by (simp only: py_split_ID_other[OF Other(1)] list.sel)
qed


lemma count_occ_last_split: "count_occ ''ID'' (last (py_split ''ID'' s)) = 0"
proof (induction s rule: py_split_ID_induct)
  case Nil
  show ?case by simp
next
  case (Token r)
  then show ?case using py_split_ne[of "''ID''" r] by simp
next
  case (Other c cs)
  note eq = py_split_ID_other[OF Other(1)]
  show ?case
  proof (cases "tl (py_split ''ID'' cs) = []")
    case True
    with eq have "last (py_split ''ID'' (c # cs)) = hd (py_split ''ID'' (c # cs))"
      by (simp del: py_split.simps)
    then show ?thesis by (simp only: count_occ_hd_split)
  next
    case False
    then have "last (py_split ''ID'' (c # cs)) = last (py_split ''ID'' cs)"
      using py_split_ne[of "''ID''" cs]
      by (cases "py_split ''ID'' cs") (simp_all only: eq last.simps list.sel if_False)
    with Other(2) show ?thesis by (simp only:)
  qed
qed

lemma py_join_length:
  "ps \<noteq> [] \<Longrightarrow> length (py_join sep ps) = sum_list (map length ps) + length sep * (length ps - 1)"
  by (induction sep ps rule: py_join.induct) simp_all

lemma py_join_snoc:
  "ps \<noteq> [] \<Longrightarrow> py_join sep (ps @ [q]) = py_join sep ps @ sep @ q"
  by (induction sep ps rule: py_join.induct) simp_all

lemma hd_last_le_sum:
  assumes "2 \<le> length ps"
  shows "length (hd ps) + length (last ps) \<le> sum_list (map length ps)"
proof -
  from assms obtain p rest where ps: "ps = p # rest" "rest \<noteq> []"
    by (cases ps) (auto simp: Suc_le_length_iff)
  have "length (last rest) \<in> set (map length rest)" using ps(2) by simp
  then have "length (last rest) \<le> sum_list (map length rest)" by (simp add: member_le_sum_list)
  with ps show ?thesis by simp
qed

lemma reconstruct_iff:
  "hd (py_split ''ID'' s) @ ''ID'' @ last (py_split ''ID'' s) = s \<longleftrightarrow> count_occ ''ID'' s = 1"
proof -
  let ?P = "py_split ''ID'' s"
  have len: "length ?P = Suc (count_occ ''ID'' s)" by (rule py_split_ID_length)
  have join: "py_join ''ID'' ?P = s" by (rule py_join_split_ID)
  consider (zero) "count_occ ''ID'' s = 0" | (one) "count_occ ''ID'' s = 1"
    | (more) "2 \<le> count_occ ''ID'' s" by linarith
  then show ?thesis
  proof cases
    case zero
    with len obtain p where p: "?P = [p]" by (cases ?P) auto
    with join have "p = s" by simp
    with p have "length (hd ?P @ ''ID'' @ last ?P) \<noteq> length s" by simp
    then have "hd ?P @ ''ID'' @ last ?P \<noteq> s" by metis
    with zero show ?thesis by simp
  next
    case one
    with len have "length ?P = 2" by simp
    then obtain p q where pq: "?P = [p, q]"
      by (cases ?P; cases "tl ?P") auto
    with join have "p @ ''ID'' @ q = s" by simp
    with pq one show ?thesis by simp
  next
    case more
    with len have l3: "3 \<le> length ?P" by simp
    then have ne: "?P \<noteq> []" by auto
    have "length s = sum_list (map length ?P) + 2 * (length ?P - 1)"
      using py_join_length[OF ne, of "''ID''"] join by simp
    moreover have "length (hd ?P) + length (last ?P) \<le> sum_list (map length ?P)"
      using l3 by (intro hd_last_le_sum) simp
    ultimately have "length (hd ?P @ ''ID'' @ last ?P) \<noteq> length s"
      using l3 by simp
    then have "hd ?P @ ''ID'' @ last ?P \<noteq> s" by metis
    with more show ?thesis by simp
  qed
qed

lemma first_last_token:
  assumes "0 < count_occ ''ID'' s"
  shows "(\<exists>r. s = hd (py_split ''ID'' s) @ ''ID'' @ r) \<and>
         (\<exists>q. s = q @ ''ID'' @ last (py_split ''ID'' s))"
proof -
  let ?P = "py_split ''ID'' s"
  have len: "length ?P = Suc (count_occ ''ID'' s)" by (rule py_split_ID_length)
  have join: "py_join ''ID'' ?P = s" by (rule py_join_split_ID)
  from len assms obtain p q rest where P: "?P = p # q # rest"
    by (cases ?P; cases "tl ?P") auto
  then have 1: "s = hd ?P @ ''ID'' @ py_join ''ID'' (q # rest)"
    using join by simp
  have bl: "butlast ?P \<noteq> []" using P by simp
  have "?P = butlast ?P @ [last ?P]" using P by simp
  then have "py_join ''ID'' ?P = py_join ''ID'' (butlast ?P) @ ''ID'' @ last ?P"
    using py_join_snoc[OF bl, of "''ID''" "last ?P"] by simp
  with join have 2: "s = py_join ''ID'' (butlast ?P) @ ''ID'' @ last ?P" by simp
  from 1 2 show ?thesis by blast
qed

text \<open>
  Claim C10.  The prefix is the first piece and the view id the last piece of the
  extension-stripped base name split at \<open>ID\<close>: each is free of \<open>ID\<close>, and when the name
  contains \<open>ID\<close> the prefix is followed by an \<open>ID\<close> token and the view id is preceded by
  one.  Prefix, \<open>ID\<close> and view id put together give the name back exactly when the name
  contains \<open>ID\<close> once; with a second \<open>ID\<close> inside the intended prefix they do not, as
  for \<open>s_IDx_ID3\<close>.
\<close>

theorem prefix_ID_view_id_reconstruction:
  "(TPA_get_file_prefix fp @ ''ID'' @ read_ID fp = remove_extension (basename fp)
      \<longleftrightarrow> count_occ ''ID'' (remove_extension (basename fp)) = 1) \<and>
   count_occ ''ID'' (TPA_get_file_prefix fp) = 0 \<and> count_occ ''ID'' (read_ID fp) = 0 \<and>
   (0 < count_occ ''ID'' (remove_extension (basename fp)) \<longrightarrow>
      (\<exists>r. remove_extension (basename fp) = TPA_get_file_prefix fp @ ''ID'' @ r) \<and>
      (\<exists>q. remove_extension (basename fp) = q @ ''ID'' @ read_ID fp)) \<and>
   TPA_get_file_prefix ''raw/s_IDx_ID3.txt'' @ ''ID'' @ read_ID ''raw/s_IDx_ID3.txt''
     \<noteq> remove_extension (basename ''raw/s_IDx_ID3.txt'')"
proof -
  have "TPA_get_file_prefix ''raw/s_IDx_ID3.txt'' @ ''ID'' @ read_ID ''raw/s_IDx_ID3.txt''
     \<noteq> remove_extension (basename ''raw/s_IDx_ID3.txt'')"
    by (simp add: TPA_get_file_prefix_def read_ID_def remove_extension_def basename_def)
  then show ?thesis
    unfolding TPA_get_file_prefix_def read_ID_def
    using reconstruct_iff count_occ_hd_split count_occ_last_split first_last_token
    by blast
qed

theorem prefix_ID_view_id_reconstruction_witness:
  "count_occ ''ID'' (remove_extension (basename ''raw/20200101_1200_ID121.TXT'')) = 1 \<and>
   TPA_get_file_prefix ''raw/20200101_1200_ID121.TXT'' = ''20200101_1200_'' \<and>
   read_ID ''raw/20200101_1200_ID121.TXT'' = ''121'' \<and>
   TPA_get_file_prefix ''raw/20200101_1200_ID121.TXT'' @ ''ID'' @
     read_ID ''raw/20200101_1200_ID121.TXT''
     = remove_extension (basename ''raw/20200101_1200_ID121.TXT'')"
proof -
  have c: "count_occ ''ID'' (remove_extension (basename ''raw/20200101_1200_ID121.TXT'')) = 1"
    by (simp add: remove_extension_def basename_def)
  have p: "TPA_get_file_prefix ''raw/20200101_1200_ID121.TXT'' = ''20200101_1200_''"
    by (simp add: TPA_get_file_prefix_def remove_extension_def basename_def)
  have v: "read_ID ''raw/20200101_1200_ID121.TXT'' = ''121''"
    by (simp add: read_ID_def remove_extension_def basename_def)
  from prefix_ID_view_id_reconstruction[of "''raw/20200101_1200_ID121.TXT''"] c
  have "TPA_get_file_prefix ''raw/20200101_1200_ID121.TXT'' @ ''ID'' @
     read_ID ''raw/20200101_1200_ID121.TXT''
     = remove_extension (basename ''raw/20200101_1200_ID121.TXT'')" by blast
  with c p v show ?thesis by blast
qed

text \<open>The paths \<open>make_filepaths\<close> derives for two views, and what is read back from them.\<close>

lemma make_filepaths_two_views:
  "filepaths (make_filepaths ''out'' ''s1_'' ''txt'' two_views)
     = Some [''out/s1_ID0.txt'', ''out/s1_ID1.txt'']"
  "map TPA_get_file_prefix [''out/s1_ID0.txt'', ''out/s1_ID1.txt''] = [''s1_'', ''s1_'']"
  "map read_ID [''out/s1_ID0.txt'', ''out/s1_ID1.txt''] = [''0'', ''1'']"
  by (simp_all add: make_filepaths_def two_views_def TPA_Sample_from_data_def path_join_def
      suffix_to_prefix TPA_get_file_prefix_def read_ID_def remove_extension_def basename_def)

section \<open>Properties of the file manager and the dataset maker\<close>

lemma counter_keys_set: "set (counter_keys pl) = set pl"
  by (simp add: counter_keys_def)

lemma counter_keys_distinct: "distinct (counter_keys pl)"
  by (simp add: counter_keys_def)

lemma remove_missing_loop_filter:
  assumes "distinct ks" and "distinct c"
    and "\<forall>k\<in>set ks. count_list pl k < n \<longrightarrow> k \<in> set c"
  shows "remove_missing_loop pl n ks c =
           Inr (filter (\<lambda>p. \<not> (p \<in> set ks \<and> count_list pl p < n)) c)"
  using assms
proof (induction ks arbitrary: c)
  case Nil
  then show ?case by simp
next
  case (Cons k ks)
  from Cons.prems have dk: "distinct ks" and kn: "k \<notin> set ks" by auto
  show ?case
  proof (cases "count_list pl k < n")
    case True
    with Cons.prems have kin: "k \<in> set c" by auto
    have r1: "remove1 k c = filter (\<lambda>p. p \<noteq> k) c"
      using Cons.prems(2) by (simp add: distinct_remove1_removeAll removeAll_filter_not_eq) metis
    have d1: "distinct (remove1 k c)" using Cons.prems(2) by simp
    have pre: "\<forall>j\<in>set ks. count_list pl j < n \<longrightarrow> j \<in> set (remove1 k c)"
      using Cons.prems(3) kn Cons.prems(2) by auto
    from Cons.IH[OF dk d1 pre] True kin
    have "remove_missing_loop pl n (k # ks) c =
        Inr (filter (\<lambda>p. \<not> (p \<in> set ks \<and> count_list pl p < n)) (filter (\<lambda>p. p \<noteq> k) c))"
      by (simp add: r1)
    also have "filter (\<lambda>p. \<not> (p \<in> set ks \<and> count_list pl p < n)) (filter (\<lambda>p. p \<noteq> k) c)
        = filter (\<lambda>p. \<not> (p \<in> set (k # ks) \<and> count_list pl p < n)) c"
      using True by (auto intro: filter_cong)
    finally show ?thesis .
  next
    case False
    have pre: "\<forall>j\<in>set ks. count_list pl j < n \<longrightarrow> j \<in> set c"
      using Cons.prems(3) by auto
    from Cons.IH[OF dk Cons.prems(2) pre] False
    have "remove_missing_loop pl n (k # ks) c =
        Inr (filter (\<lambda>p. \<not> (p \<in> set ks \<and> count_list pl p < n)) c)"
      by simp
    also have "filter (\<lambda>p. \<not> (p \<in> set ks \<and> count_list pl p < n)) c
        = filter (\<lambda>p. \<not> (p \<in> set (k # ks) \<and> count_list pl p < n)) c"
      using False by (auto intro: filter_cong)
    finally show ?thesis .
  qed
qed

text \<open>
  Claim C5 (amended).  For a duplicate-free candidate list that contains every prefix
  of the flat list whose count is below the number of views, \<open>_remove_missing_views\<close>
  returns the candidates without exactly those that occur in the flat list with a count
  below the number of views; all other candidates are kept, in their order.
\<close>

theorem remove_missing_views_complete_groups:
  assumes "distinct cands"
    and "\<forall>p\<in>set pl. count_list pl p < n \<longrightarrow> p \<in> set cands"
  shows "remove_missing_views n pl cands =
           Inr (filter (\<lambda>p. \<not> (p \<in> set pl \<and> count_list pl p < n)) cands)"
  using remove_missing_loop_filter[OF counter_keys_distinct assms(1), of pl pl n] assms(2)
  by (simp add: remove_missing_views_def counter_keys_set)

theorem remove_missing_views_complete_groups_witness:
  "distinct [''A'', ''B''] \<and>
   remove_missing_views 3 [''A'', ''B'', ''A'', ''B'', ''A''] [''A'', ''B''] = Inr [''A'']"
proof -
  have d: "distinct [''A'', ''B'']" by simp
  have c: "\<forall>p\<in>set [''A'', ''B'', ''A'', ''B'', ''A''].
      count_list [''A'', ''B'', ''A'', ''B'', ''A''] p < 3 \<longrightarrow> p \<in> set [''A'', ''B'']"
    by simp
  from remove_missing_views_complete_groups[OF d c] d show ?thesis by simp
qed

text \<open>
  The claim as stated covers every candidate set.  A candidate that does not occur in
  the flat list has count \<open>0\<close>, below three views, and is kept: the loop runs over the
  counted prefixes only.
\<close>

theorem remove_missing_views_unlisted_candidate_counterexample:
  "count_list [''A'', ''A'', ''A''] ''C'' < 3 \<and>
   remove_missing_views 3 [''A'', ''A'', ''A''] [''A'', ''C''] = Inr [''A'', ''C'']"
  by (simp add: remove_missing_views_def counter_keys_def)

text \<open>A counted prefix with too few views that is not a candidate makes \<open>remove\<close> raise.\<close>

lemma remove_missing_views_not_candidate:
  "remove_missing_views 3 [''A'', ''A'', ''A'', ''B''] [''A''] = Inl ValueError"
  by (simp add: remove_missing_views_def counter_keys_def)

text \<open>
  Claim C4.  The label loops of \<open>make\<close> remove from the list they iterate over, so the
  prefix after a removed one is skipped.  With two candidates that both carry the
  non-integer label \<open>x\<close>, whichever comes second survives all three loops, where the
  claim leaves only prefixes with an integer label.
\<close>

theorem filter_labels_keeps_non_integer_label:
  "filter_labels [(''a'', JStr ''x''), (''b'', JStr ''x'')] [''a'', ''b''] = Inr [''b''] \<and>
   filter_labels [(''a'', JStr ''x''), (''b'', JStr ''x'')] [''b'', ''a''] = Inr [''a'']"
  by (simp add: filter_labels_def lookup_label_def remove_while_iterating.simps)

text \<open>
  Further evaluations of the label loops: the integer label \<open>0\<close> is falsy and dropped
  as a missing label; two adjacent prefixes without a label entry raise \<open>KeyError\<close> in
  the second loop; on the labels of the claim's example, once their keys are bare
  prefixes, exactly \<open>p1\<close> and \<open>p4\<close> survive.
\<close>

lemma filter_labels_drops_label_zero:
  "filter_labels [(''a'', JInt 0)] [''a''] = Inr []"
  by (simp add: filter_labels_def lookup_label_def remove_while_iterating.simps)

lemma filter_labels_two_unlabelled_raise:
  "filter_labels [] [''a'', ''b''] = Inl KeyError"
  by (simp add: filter_labels_def lookup_label_def remove_while_iterating.simps)

lemma filter_labels_spec_example:
  "filter_labels [(''p1'', JInt 2), (''p2'', JStr []), (''p3'', JStr ''x''), (''p4'', JInt 5)]
     [''p1'', ''p2'', ''p3'', ''p4''] = Inr [''p1'', ''p4'']"
  by (simp add: filter_labels_def lookup_label_def remove_while_iterating.simps)

text \<open>
  The key normalisation changes the dictionary it iterates over.  Under the iterator
  protocol modelled here the renaming of \<open>p4ID0\<close> is detected and raises; a labels file
  whose keys are bare prefixes is read unchanged.
\<close>

lemma read_labels_file_spec_example:
  "read_labels_file
     \<lparr>files = [(''labels.json'', Json [(''p1'', JInt 2), (''p2'', JStr []), (''p3'', JStr ''x''),
                                      (''p4ID0'', JInt 5)])], dirs = []\<rparr>
     ''labels.json'' = Inl RuntimeError"
  by (simp add: read_labels_file_def used_def find_live_def rename_key_def table_pop_def
      table_set_def table_items_def)

lemma read_labels_file_plain_keys:
  "read_labels_file
     \<lparr>files = [(''labels.json'', Json [(''p1'', JInt 2), (''p2'', JStr [])])], dirs = []\<rparr>
     ''labels.json'' = Inr [(''p1'', JInt 2), (''p2'', JStr [])]"
  by (simp add: read_labels_file_def used_def find_live_def rename_key_def table_pop_def
      table_set_def table_items_def)

text \<open>
  What the label loops do guarantee: an element that fails the test of a loop is never
  removed by it, so a candidate with a nonzero integer label survives whenever the
  loops return.
\<close>

lemma remove_while_iterating_keeps:
  assumes "remove_while_iterating test i xs = Inr ys" and "x \<in> set xs" and "test x = Inr False"
  shows "x \<in> set ys"
  using assms
proof (induction test i xs rule: remove_while_iterating.induct)
  case (1 test i xs)
  show ?case
  proof (cases "i < length xs")
    case False
    with "1.prems" show ?thesis by (simp add: remove_while_iterating.simps)
  next
    case True
    show ?thesis
    proof (cases "test (xs ! i)")
      case (Inl e)
      with True "1.prems"(1) show ?thesis by (simp add: remove_while_iterating.simps)
    next
      case (Inr b)
      show ?thesis
      proof (cases b)
        case True
        with Inr \<open>i < length xs\<close> "1.prems"(1)
        have run: "remove_while_iterating test (Suc i) (remove1 (xs ! i) xs) = Inr ys"
          by (simp add: remove_while_iterating.simps[of test i xs])
        from True Inr "1.prems"(3) have "x \<noteq> xs ! i" by auto
        with "1.prems"(2) have "x \<in> set (remove1 (xs ! i) xs)" by simp
        moreover from True have "b = True" by simp
        ultimately show ?thesis
          using "1.IH"(1)[OF \<open>i < length xs\<close> Inr _ run _ "1.prems"(3)] by blast
      next
        case False
        with Inr \<open>i < length xs\<close> "1.prems"(1)
        have run: "remove_while_iterating test (Suc i) xs = Inr ys"
          by (simp add: remove_while_iterating.simps[of test i xs])
        moreover from False have "b = False" by simp
        ultimately show ?thesis
          using "1.IH"(2)[OF \<open>i < length xs\<close> Inr _ _ "1.prems"(2,3)] by blast
      qed
    qed
  qed
qed

lemma filter_labels_keeps_valid:
  assumes "filter_labels labels cands = Inr kept" and "p \<in> set cands"
    and "map_of labels p = Some v" and "truthy v" and "is_int v"
  shows "p \<in> set kept"
proof -
  from assms(1) obtain l1 l2 where
    l1: "remove_while_iterating (\<lambda>p. Inr (map_of labels p = None)) 0 cands = Inr l1"
    and l2: "remove_while_iterating
       (\<lambda>p. case lookup_label labels p of Inl e \<Rightarrow> Inl e | Inr v \<Rightarrow> Inr (\<not> truthy v)) 0 l1 = Inr l2"
    and l3: "remove_while_iterating
       (\<lambda>p. case lookup_label labels p of Inl e \<Rightarrow> Inl e | Inr v \<Rightarrow> Inr (\<not> is_int v)) 0 l2 = Inr kept"
    by (auto simp: filter_labels_def split: sum.splits)
  have 1: "p \<in> set l1"
    using assms(2,3) by (intro remove_while_iterating_keeps[OF l1]) simp_all
  have 2: "p \<in> set l2"
    using 1 assms(3,4) by (intro remove_while_iterating_keeps[OF l2]) (simp_all add: lookup_label_def)
  show ?thesis
    using 2 assms(3,5) by (intro remove_while_iterating_keeps[OF l3]) (simp_all add: lookup_label_def)
qed

lemma ensure_path_exists_files:
  "ensure_path_exists d fs = Inr fs1 \<Longrightarrow> files fs1 = files fs"
  by (auto simp: ensure_path_exists_def split: if_splits)

lemma ensure_path_exists_ok:
  "d \<noteq> [] \<Longrightarrow> \<exists>fs1. ensure_path_exists d fs = Inr fs1"
  by (simp add: ensure_path_exists_def)

lemma discover_files: "files fs1 = files fs \<Longrightarrow> discover m fs1 = discover m fs"
  by (simp add: discover_def glob_star_def)

lemma read_labels_file_files:
  "files fs1 = files fs \<Longrightarrow> read_labels_file fs1 p = read_labels_file fs p"
  by (simp add: read_labels_file_def)

lemma select_prefixes_files:
  assumes "files fs1 = files fs"
  shows "select_prefixes los m fs1 = select_prefixes los m fs"
  unfolding select_prefixes_def
  by (simp only: discover_files[OF assms] read_labels_file_files[OF assms])

text \<open>
  Claim C6.  When the completeness filter and the label loops leave no prefix, which
  includes the case that no file is found at all, a configured \<open>make\<close> with a nonempty
  destination path returns \<open>False\<close> and leaves the files as they were: nothing is copied,
  no \<open>tpa.nfo\<close> and no labels file is written.  Only the destination directory itself
  has been created.
\<close>

theorem make_all_eliminated_writes_nothing:
  assumes "configured m" and "dataset_destination_dir m \<noteq> []"
  shows "(select_prefixes los m fs = Inr [] \<longrightarrow>
            (\<exists>fs1. ensure_path_exists (dataset_destination_dir m) fs = Inr fs1 \<and>
               make_dataset los m fs = (Inr False, fs1)) \<and>
            fst (make_dataset los m fs) = Inr False \<and>
            files (snd (make_dataset los m fs)) = files fs) \<and>
         (discover m fs = [] \<and> los [] = [] \<and>
            (\<exists>labels. read_labels_file fs (labels_filepath m) = Inr labels) \<longrightarrow>
            select_prefixes los m fs = Inr [])"
proof (intro conjI impI)
  assume e: "select_prefixes los m fs = Inr []"
  from ensure_path_exists_ok[OF assms(2), of fs] obtain fs1 where
    fs1: "ensure_path_exists (dataset_destination_dir m) fs = Inr fs1" by blast
  note f = ensure_path_exists_files[OF fs1]
  have m: "make_dataset los m fs = (Inr False, fs1)"
    using assms(1) fs1 e by (simp add: make_dataset_def Let_def select_prefixes_files[OF f])
  with fs1 show "\<exists>fs1. ensure_path_exists (dataset_destination_dir m) fs = Inr fs1 \<and>
      make_dataset los m fs = (Inr False, fs1)" by blast
  from m show "fst (make_dataset los m fs) = Inr False" by simp
  from m f show "files (snd (make_dataset los m fs)) = files fs" by simp
next
  assume a: "discover m fs = [] \<and> los [] = [] \<and>
      (\<exists>labels. read_labels_file fs (labels_filepath m) = Inr labels)"
  then obtain labels where l: "read_labels_file fs (labels_filepath m) = Inr labels" by blast
  have "filter_labels labels [] = Inr []"
    by (simp add: filter_labels_def remove_while_iterating.simps)
  with a l show "select_prefixes los m fs = Inr []"
    by (simp add: select_prefixes_def remove_missing_views_def counter_keys_def)
qed

lemma select_prefixes_unlabelled:
  "select_prefixes remdups two_view_maker (processed_fs [(''a'', JStr []), (''b'', JStr [])]) = Inr []"
  by (simp add: select_prefixes_def discover_def glob_star_def two_view_maker_def processed_fs_def
      path_join_def basename_def TPA_get_file_prefix_def remove_extension_def suffix_to_prefix
      remove_missing_views_def counter_keys_def
      read_labels_file_def used_def find_live_def rename_key_def table_pop_def
      table_set_def table_items_def
      filter_labels_def lookup_label_def remove_while_iterating.simps)

theorem make_all_eliminated_writes_nothing_witness:
  "configured two_view_maker \<and> dataset_destination_dir two_view_maker \<noteq> [] \<and>
   select_prefixes remdups two_view_maker (processed_fs [(''a'', JStr []), (''b'', JStr [])]) = Inr [] \<and>
   fst (make_dataset remdups two_view_maker (processed_fs [(''a'', JStr []), (''b'', JStr [])])) = Inr False \<and>
   files (snd (make_dataset remdups two_view_maker (processed_fs [(''a'', JStr []), (''b'', JStr [])])))
     = files (processed_fs [(''a'', JStr []), (''b'', JStr [])])"
proof -
  have c: "configured two_view_maker" by (simp add: two_view_maker_def)
  have d: "dataset_destination_dir two_view_maker \<noteq> []" by (simp add: two_view_maker_def)
  from make_all_eliminated_writes_nothing[OF c d, of remdups
      "processed_fs [(''a'', JStr []), (''b'', JStr [])]"]
    select_prefixes_unlabelled c d
  show ?thesis by simp
qed

text \<open>
  End to end: with the labels of claim C4's failing input, \<open>make\<close> keeps \<open>b\<close>, copies its
  files, writes the stage marker and the labels file, and returns \<open>True\<close>.
\<close>

lemma select_prefixes_two_bad_labels:
  "select_prefixes remdups two_view_maker (processed_fs [(''a'', JStr ''x''), (''b'', JStr ''x'')])
     = Inr [''b'']"
  by (simp add: select_prefixes_def discover_def glob_star_def two_view_maker_def processed_fs_def
      path_join_def basename_def TPA_get_file_prefix_def remove_extension_def suffix_to_prefix
      remove_missing_views_def counter_keys_def
      read_labels_file_def used_def find_live_def rename_key_def table_pop_def
      table_set_def table_items_def
      filter_labels_def lookup_label_def remove_while_iterating.simps)

lemma make_copies_non_integer_label:
  "make_dataset remdups two_view_maker (processed_fs [(''a'', JStr ''x''), (''b'', JStr ''x'')]) =
     (Inr True,
      \<lparr>files = files (processed_fs [(''a'', JStr ''x''), (''b'', JStr ''x'')]) @
         [(''data/bID0.txt'', Raw ''b0''), (''data/bID1.txt'', Raw ''b1''),
          (''data/tpa.nfo'', Json [(''DATASET_PREPARED'', JInt 1)]),
          (''data/labels.json'', Json [(''a'', JStr ''x''), (''b'', JStr ''x'')])],
       dirs = [''data'', ''proc'']\<rparr>)"
proof -
  let ?fs = "processed_fs [(''a'', JStr ''x''), (''b'', JStr ''x'')]"
  have c: "configured two_view_maker" by (simp add: two_view_maker_def)
  have e: "ensure_path_exists (dataset_destination_dir two_view_maker) ?fs
      = Inr (?fs\<lparr>dirs := [''data'', ''proc'']\<rparr>)"
    by (simp add: ensure_path_exists_def path_exists_def two_view_maker_def processed_fs_def)
  have s: "select_prefixes remdups two_view_maker (?fs\<lparr>dirs := [''data'', ''proc'']\<rparr>) = Inr [''b'']"
    using select_prefixes_two_bad_labels
      select_prefixes_files[of "?fs\<lparr>dirs := [''data'', ''proc'']\<rparr>" ?fs remdups two_view_maker]
    by simp
  have d: "discover two_view_maker (?fs\<lparr>dirs := [''data'', ''proc'']\<rparr>)
      = [''proc/aID0.txt'', ''proc/bID0.txt'', ''proc/aID1.txt'', ''proc/bID1.txt'']"
    by (simp add: discover_def glob_star_def two_view_maker_def processed_fs_def
        path_join_def basename_def suffix_to_prefix)
  have p: "map TPA_get_file_prefix
      [''proc/aID0.txt'', ''proc/bID0.txt'', ''proc/aID1.txt'', ''proc/bID1.txt'']
      = [''a'', ''b'', ''a'', ''b'']"
    by (simp add: TPA_get_file_prefix_def remove_extension_def basename_def)
  show ?thesis
    unfolding make_dataset_def Let_def e sum.case s d p
    by (simp add: c view_paths_def two_view_maker_def processed_fs_def path_join_def
        copy2_def write_nfo_def copy_labels_file_def suffix_to_prefix)
qed

section \<open>Properties of the constructor of a data-backed sample\<close>

lemma init_char:
  assumes "well_typed_args h aa ta ia"
  shows "TPA_Sample_from_data_init aa ta ia ofp h =
           Some (\<lparr>filepaths_ref = ofp, ids_ref = length h, arrays_ref = Suc (length h),
                  timestamps_ref = Suc (Suc (length h))\<rparr>,
                 h @ [h ! ia, h ! aa, h ! ta])"
proof -
  from assms have "ia < length h" "aa < length h" "ta < length h"
    by (auto simp: well_typed_args_def get_strs_def get_refs_def split: if_splits option.splits)
  then show ?thesis
    by (simp add: TPA_Sample_from_data_init_def list_copy_def nth_append)
qed

lemma get_array_agree:
  assumes "differs_only_at A h1 h2" and "get_array h1 r \<noteq> None" and "r \<notin> A"
  shows "get_array h2 r = get_array h1 r"
proof -
  from assms(2) have "r < length h1" by (auto simp: get_array_def split: if_splits)
  with assms(1,3) have "h2 ! r = h1 ! r" "r < length h2"
    by (auto simp: differs_only_at_def)
  with \<open>r < length h1\<close> show ?thesis by (simp add: get_array_def)
qed

lemma get_floats_agree:
  assumes "differs_only_at A h1 h2" and "get_floats h1 r \<noteq> None" and "r \<notin> A"
  shows "get_floats h2 r = get_floats h1 r"
proof -
  from assms(2) have "r < length h1" by (auto simp: get_floats_def split: if_splits)
  with assms(1,3) have "h2 ! r = h1 ! r" "r < length h2"
    by (auto simp: differs_only_at_def)
  with \<open>r < length h1\<close> show ?thesis by (simp add: get_floats_def)
qed

lemma get_array_append: "get_array h r \<noteq> None \<Longrightarrow> get_array (h @ xs) r = get_array h r"
  by (auto simp: get_array_def nth_append split: if_splits)

lemma get_floats_append: "get_floats h r \<noteq> None \<Longrightarrow> get_floats (h @ xs) r = get_floats h r"
  by (auto simp: get_floats_def nth_append split: if_splits)

lemma kinds_disjoint:
  "get_array h r \<noteq> None \<Longrightarrow> get_refs h r = None \<and> get_strs h r = None"
  "get_floats h r \<noteq> None \<Longrightarrow> get_refs h r = None \<and> get_strs h r = None"
  by (auto simp: get_array_def get_floats_def get_refs_def get_strs_def split: if_splits obj.splits)

text \<open>
  Claim C7 (amended).  The constructor copies the three lists it is given, not the
  objects they refer to.  The sample stores the ids, arrays and timestamps the caller
  passed, and whatever the caller afterwards does to its own arrays list, timestamps
  list or id list (replacing, adding or removing elements) leaves what the sample stores
  unchanged.  The ids, being strings, cannot be changed in place at all.
\<close>

theorem constructor_copies_outer_lists:
  assumes "well_typed_args h aa ta ia"
  shows "\<exists>s h1. TPA_Sample_from_data_init aa ta ia ofp h = Some (s, h1) \<and>
           stored_ids h1 s = get_strs h ia \<and>
           stored_arrays h1 s = map_option (map (get_array h)) (get_refs h aa) \<and>
           stored_timestamps h1 s = map_option (map (get_floats h)) (get_refs h ta) \<and>
           (\<forall>h2. differs_only_at {aa, ta, ia} h1 h2 \<longrightarrow>
              stored_ids h2 s = stored_ids h1 s \<and>
              stored_arrays h2 s = stored_arrays h1 s \<and>
              stored_timestamps h2 s = stored_timestamps h1 s)"
proof -
  let ?n = "length h"
  let ?s = "\<lparr>filepaths_ref = ofp, ids_ref = ?n, arrays_ref = Suc ?n,
             timestamps_ref = Suc (Suc ?n)\<rparr>"
  let ?h1 = "h @ [h ! ia, h ! aa, h ! ta]"
  note run = init_char[OF assms, of ofp]
  from assms obtain ids ars tss where
    g: "get_strs h ia = Some ids" "get_refs h aa = Some ars" "get_refs h ta = Some tss"
    and ea: "\<forall>r\<in>set ars. get_array h r \<noteq> None"
    and et: "\<forall>r\<in>set tss. get_floats h r \<noteq> None"
    by (auto simp: well_typed_args_def list_all_iff split: option.splits)
  from g have lt: "ia < ?n" "aa < ?n" "ta < ?n"
    and o: "h ! ia = StrList ids" "h ! aa = RefList ars" "h ! ta = RefList tss"
    by (auto simp: get_strs_def get_refs_def split: if_splits obj.splits)
  have i1: "stored_ids ?h1 ?s = Some ids"
    using o by (simp add: stored_ids_def get_strs_def nth_append)
  have r1: "get_refs ?h1 (Suc ?n) = Some ars" "get_refs ?h1 (Suc (Suc ?n)) = Some tss"
    using o by (simp_all add: get_refs_def nth_append)
  have a1: "stored_arrays ?h1 ?s = Some (map (get_array h) ars)"
    using r1 ea by (simp add: stored_arrays_def get_array_append)
  have t1: "stored_timestamps ?h1 ?s = Some (map (get_floats h) tss)"
    using r1 et by (simp add: stored_timestamps_def get_floats_append)
  have frame: "stored_ids h2 ?s = stored_ids ?h1 ?s \<and>
      stored_arrays h2 ?s = stored_arrays ?h1 ?s \<and>
      stored_timestamps h2 ?s = stored_timestamps ?h1 ?s"
    if d: "differs_only_at {aa, ta, ia} ?h1 h2" for h2
  proof -
    from d have len: "?n + 3 \<le> length h2"
      and same: "\<And>b. b < ?n + 3 \<Longrightarrow> b \<notin> {aa, ta, ia} \<Longrightarrow> h2 ! b = ?h1 ! b"
      by (auto simp: differs_only_at_def)
    have n0: "h2 ! ?n = ?h1 ! ?n" using same[of ?n] lt by simp
    have n1: "h2 ! Suc ?n = ?h1 ! Suc ?n" using same[of "Suc ?n"] lt by simp
    have n2: "h2 ! Suc (Suc ?n) = ?h1 ! Suc (Suc ?n)" using same[of "Suc (Suc ?n)"] lt by simp
    have i2: "stored_ids h2 ?s = Some ids"
      using n0 o len by (simp add: stored_ids_def get_strs_def nth_append)
    have r2: "get_refs h2 (Suc ?n) = Some ars" "get_refs h2 (Suc (Suc ?n)) = Some tss"
      using n1 n2 o len by (simp_all add: get_refs_def nth_append)
    have "get_array h2 r = get_array h r" if "r \<in> set ars" for r
    proof -
      from that ea have ne: "get_array h r \<noteq> None" by blast
      with g(1,2,3) have "r \<notin> {aa, ta, ia}" using kinds_disjoint(1)[OF ne] by auto
      moreover from ne have "get_array ?h1 r = get_array h r" by (rule get_array_append)
      ultimately show ?thesis using get_array_agree[OF d, of r] ne by simp
    qed
    then have a2: "stored_arrays h2 ?s = Some (map (get_array h) ars)"
      using r2 by (simp add: stored_arrays_def)
    have "get_floats h2 r = get_floats h r" if "r \<in> set tss" for r
    proof -
      from that et have ne: "get_floats h r \<noteq> None" by blast
      with g(1,2,3) have "r \<notin> {aa, ta, ia}" using kinds_disjoint(2)[OF ne] by auto
      moreover from ne have "get_floats ?h1 r = get_floats h r" by (rule get_floats_append)
      ultimately show ?thesis using get_floats_agree[OF d, of r] ne by simp
    qed
    then have t2: "stored_timestamps h2 ?s = Some (map (get_floats h) tss)"
      using r2 by (simp add: stored_timestamps_def)
    from i1 i2 a1 a2 t1 t2 show ?thesis by simp
  qed
  from run i1 a1 t1 g frame show ?thesis by simp
qed

lemma caller_store_init:
  "TPA_Sample_from_data_init 2 4 0 None caller_store =
     Some (\<lparr>filepaths_ref = None, ids_ref = 5, arrays_ref = 6, timestamps_ref = 7\<rparr>,
           caller_store @ [StrList [''0''], RefList [1], RefList [3]])"
  by (simp add: TPA_Sample_from_data_init_def list_copy_def caller_store_def)

theorem constructor_copies_outer_lists_witness:
  "well_typed_args caller_store 2 4 0 \<and>
   (\<exists>s h1. TPA_Sample_from_data_init 2 4 0 None caller_store = Some (s, h1) \<and>
      stored_ids h1 s = Some [''0''] \<and>
      stored_ids (h1[0 := StrList [''changed'']]) s = Some [''0''] \<and>
      stored_timestamps (h1[4 := RefList []]) s = stored_timestamps h1 s)"
proof -
  have wt: "well_typed_args caller_store 2 4 0"
    by (simp add: well_typed_args_def caller_store_def get_strs_def get_refs_def get_array_def
        get_floats_def)
  from constructor_copies_outer_lists[OF wt, of None] obtain s h1 where
    h: "TPA_Sample_from_data_init 2 4 0 None caller_store = Some (s, h1)"
      "stored_ids h1 s = get_strs caller_store 0"
      "\<forall>h2. differs_only_at {2, 4, 0} h1 h2 \<longrightarrow>
         stored_ids h2 s = stored_ids h1 s \<and> stored_arrays h2 s = stored_arrays h1 s \<and>
         stored_timestamps h2 s = stored_timestamps h1 s"
    by blast
  have "differs_only_at {2, 4, 0} h1 (h1[0 := StrList [''changed'']])"
    "differs_only_at {2, 4, 0} h1 (h1[4 := RefList []])"
    by (simp_all add: differs_only_at_def)
  with h(3) have "stored_ids (h1[0 := StrList [''changed'']]) s = stored_ids h1 s"
    "stored_timestamps (h1[4 := RefList []]) s = stored_timestamps h1 s"
    by blast+
  moreover have "get_strs caller_store 0 = Some [''0'']"
    by (simp add: get_strs_def caller_store_def)
  ultimately show ?thesis using wt h(1,2) by auto
qed

text \<open>
  The claim as stated also covers the elements.  The array and the timestamp list of a
  view are the caller's own objects: after \<open>timestamps[0][0] = 99\<close> or an assignment
  into \<open>arrays[0]\<close> by the caller, the sample stores the changed values.
\<close>

theorem constructor_shares_view_objects_counterexample:
  "\<exists>s h1. TPA_Sample_from_data_init 2 4 0 None caller_store = Some (s, h1) \<and>
     stored_timestamps h1 s = Some [Some [5, 6]] \<and>
     stored_timestamps (h1[3 := FloatList [99, 6]]) s = Some [Some [99, 6]] \<and>
     stored_arrays h1 s = Some [Some [[[20]], [[21]]]] \<and>
     stored_arrays (h1[1 := NdArray [[[0]], [[21]]]]) s = Some [Some [[[0]], [[21]]]]"
  unfolding caller_store_init
  by (simp add: caller_store_def stored_timestamps_def stored_arrays_def get_refs_def
      get_floats_def get_array_def)

section \<open>Properties of the txt codec\<close>

lemma digit_char_props:
  assumes "d < 10"
  shows "is_digit (digit_char d)" and "digit_val (digit_char d) = d"
    and "(of_char (digit_char d) :: nat) = 48 + d"
  using assms by (simp_all add: is_digit_def digit_val_def digit_char_def)

lemma is_digit_not_special:
  assumes "is_digit ch"
  shows "ch \<noteq> CHR ''.''" and "ch \<noteq> CHR '' ''" and "ch \<noteq> CHR ''-''" and "ch \<noteq> CHR ''+''"
    and "ch \<noteq> newline"
  using assms by (auto simp: is_digit_def newline_def)

lemma show_nat_digits: "list_all is_digit (show_nat n)"
proof (induction n rule: show_nat.induct)
  case (1 n)
  show ?case
  proof (cases "n < 10")
    case True
    then show ?thesis by (simp add: show_nat.simps[of n] digit_char_props)
  next
    case False
    with 1 show ?thesis by (simp add: show_nat.simps[of n] digit_char_props)
  qed
qed

lemma show_nat_ne: "show_nat n \<noteq> []"
  by (simp add: show_nat.simps[of n])

lemma show_nat_value: "foldl (\<lambda>a ch. 10 * a + digit_val ch) 0 (show_nat n) = n"
proof (induction n rule: show_nat.induct)
  case (1 n)
  show ?case
  proof (cases "n < 10")
    case True
    then show ?thesis by (simp add: show_nat.simps[of n] digit_char_props)
  next
    case False
    with 1 show ?thesis by (simp add: show_nat.simps[of n] digit_char_props)
  qed
qed

lemma show_nat_length:
  "n < 10 \<Longrightarrow> length (show_nat n) = 1"
  "n < 100 \<Longrightarrow> length (show_nat n) \<le> 2"
proof -
  show a: "length (show_nat n) = 1" if "n < 10" for n
    using that by (simp add: show_nat.simps[of n])
  assume "n < 100"
  then show "length (show_nat n) \<le> 2"
    using a[of "n div 10"] by (cases "n < 10") (simp_all add: show_nat.simps[of n])
qed

lemma parse_nat_digits:
  assumes "ds \<noteq> []" and "list_all is_digit ds"
  shows "parse_nat ds = Inr (foldl (\<lambda>a ch. 10 * a + digit_val ch) 0 ds)"
  using assms by (simp add: parse_nat_def)

lemma parse_int_digits:
  assumes "ds \<noteq> []" and "list_all is_digit ds"
  shows "parse_int ds = Inr (int (foldl (\<lambda>a ch. 10 * a + digit_val ch) 0 ds))"
    and "parse_int (CHR ''-'' # ds) = Inr (- int (foldl (\<lambda>a ch. 10 * a + digit_val ch) 0 ds))"
proof -
  from assms obtain d rest where ds: "ds = d # rest" and d: "is_digit d"
    by (cases ds) auto
  from d have "d \<noteq> CHR ''-''" "d \<noteq> CHR ''+''" by (simp_all add: is_digit_not_special)
  then show "parse_int ds = Inr (int (foldl (\<lambda>a ch. 10 * a + digit_val ch) 0 ds))"
    using parse_nat_digits[OF assms] ds by (simp add: parse_int_def)
  show "parse_int (CHR ''-'' # ds) = Inr (- int (foldl (\<lambda>a ch. 10 * a + digit_val ch) 0 ds))"
    using parse_nat_digits[OF assms] by (simp add: parse_int_def)
qed

text \<open>The digits written for a value: integer part and two decimals of its hundredths.\<close>

lemma stripped_format:
  "filter (\<lambda>ch. ch \<noteq> CHR ''.'') (format_2f val) =
     (if val < 0 then ''-'' else []) @
     show_nat (nat (round_half_even (\<bar>val\<bar> * 100)) div 100) @
     [digit_char (nat (round_half_even (\<bar>val\<bar> * 100)) mod 100 div 10),
      digit_char (nat (round_half_even (\<bar>val\<bar> * 100)) mod 10)]"
proof -
  let ?c = "nat (round_half_even (\<bar>val\<bar> * 100))"
  have 1: "filter (\<lambda>ch. ch \<noteq> CHR ''.'') (show_nat (?c div 100)) = show_nat (?c div 100)"
    using show_nat_digits[of "?c div 100"]
    by (auto simp: list_all_iff filter_id_conv is_digit_not_special)
  have 2: "digit_char (?c mod 100 div 10) \<noteq> CHR ''.''" "digit_char (?c mod 10) \<noteq> CHR ''.''"
    by (simp_all add: is_digit_not_special digit_char_props)
  show ?thesis using 1 2 by (simp add: format_2f_def Let_def)
qed

lemma value_text_cases:
  obtains (nonneg) ds where "0 \<le> val" "value_text val = ds" "ds \<noteq> []" "list_all is_digit ds"
  | (neg) ds where "val < 0" "value_text val = CHR ''-'' # ds" "ds \<noteq> []" "list_all is_digit ds"
proof -
  let ?c = "nat (round_half_even (\<bar>val\<bar> * 100))"
  let ?D = "show_nat (?c div 100) @ [digit_char (?c mod 100 div 10), digit_char (?c mod 10)]"
  have D: "list_all is_digit ?D"
    using show_nat_digits[of "?c div 100"] by (simp add: digit_char_props)
  have l: "3 \<le> length ?D" using show_nat_ne[of "?c div 100"]
    by (cases "show_nat (?c div 100)") simp_all
  show ?thesis
  proof (cases "val < 0")
    case False
    have "value_text val = take 4 ?D"
      using False by (simp add: value_text_def stripped_format)
    moreover have "take 4 ?D \<noteq> []" using l by auto
    moreover have "list_all is_digit (take 4 ?D)"
      using D by (auto simp: list_all_iff dest: in_set_takeD)
    ultimately show ?thesis using False nonneg by simp
  next
    case True
    have "value_text val = CHR ''-'' # take 3 ?D"
      using True by (simp add: value_text_def stripped_format)
    moreover have "take 3 ?D \<noteq> []" using l by auto
    moreover have "list_all is_digit (take 3 ?D)"
      using D by (auto simp: list_all_iff dest: in_set_takeD)
    ultimately show ?thesis using True neg by simp
  qed
qed

lemma value_text_char:
  assumes "ch \<in> set (value_text val)"
  shows "ch \<noteq> CHR '' '' \<and> ch \<noteq> newline"
proof (cases val rule: value_text_cases)
  case (nonneg ds)
  with assms have "is_digit ch" by (auto simp: list_all_iff)
  then show ?thesis by (simp add: is_digit_not_special)
next
  case (neg ds)
  with assms have "ch = CHR ''-'' \<or> is_digit ch" by (auto simp: list_all_iff)
  then show ?thesis by (auto simp: is_digit_def newline_def)
qed

lemma value_text_no_blank: "CHR '' '' \<notin> set (value_text val)"
  using value_text_char by blast

lemma value_text_no_newline: "newline \<notin> set (value_text val)"
  using value_text_char by blast

lemma parse_value_text: "\<exists>c. parse_int (value_text val) = Inr c"
proof (cases val rule: value_text_cases)
  case (nonneg ds)
  then show ?thesis using parse_int_digits(1)[of ds] by simp
next
  case (neg ds)
  then show ?thesis using parse_int_digits(2)[of ds] by simp
qed

lemma parse_value_text_read_back:
  "parse_int (value_text val) = Inr c \<Longrightarrow> real_of_int c * (1 / 100) = read_back val"
  by (simp add: read_back_def)

lemma round_half_even_near: "\<bar>real_of_int (round_half_even x) - x\<bar> \<le> 1 / 2"
  unfolding round_half_even_def Let_def by (auto simp: abs_le_iff)

lemma round_half_even_le:
  assumes "x \<le> real_of_int n"
  shows "round_half_even x \<le> n"
proof -
  have f: "\<lfloor>x\<rfloor> \<le> n" using assms by (simp add: floor_le_iff)
  show ?thesis
  proof (cases "\<lfloor>x\<rfloor> = n")
    case True
    with assms have "x - real_of_int \<lfloor>x\<rfloor> \<le> 0" by simp
    then show ?thesis using True by (simp add: round_half_even_def Let_def)
  next
    case False
    with f have "\<lfloor>x\<rfloor> + 1 \<le> n" by simp
    then show ?thesis by (auto simp: round_half_even_def Let_def)
  qed
qed

lemma round_half_even_nonneg: "0 \<le> x \<Longrightarrow> 0 \<le> round_half_even x"
  by (auto simp: round_half_even_def Let_def)

lemma digits_value:
  fixes c :: nat
  shows "foldl (\<lambda>a ch. 10 * a + digit_val ch) 0
           (show_nat (c div 100) @ [digit_char (c mod 100 div 10), digit_char (c mod 10)]) = c"
proof -
  define q r t u where "q = c div 100" and "r = c mod 100" and "t = c mod 100 div 10"
    and "u = c mod 10"
  have "c mod 100 mod 10 = c mod 10" by (simp add: mod_mod_cancel)
  then have "c mod 100 = 10 * (c mod 100 div 10) + c mod 10"
    using mult_div_mod_eq[of 10 "c mod 100"] by (simp only:)
  then have a: "r = 10 * t + u"
    unfolding r_def t_def u_def .
  have d: "c = 100 * q + r" unfolding q_def r_def by simp
  from a d have "10 * (10 * q + t) + u = c" by simp
  then have "10 * (10 * (c div 100) + c mod 100 div 10) + c mod 10 = c"
    unfolding q_def t_def u_def .
  then show ?thesis by (simp add: show_nat_value digit_char_props)
qed

lemma read_back_in_range:
  assumes "- 9.99 \<le> val" and "val \<le> 99.99"
  shows "\<bar>read_back val - val\<bar> \<le> 0.005"
proof -
  let ?r = "round_half_even (\<bar>val\<bar> * 100)"
  let ?c = "nat ?r"
  let ?D = "show_nat (?c div 100) @ [digit_char (?c mod 100 div 10), digit_char (?c mod 10)]"
  have r0: "0 \<le> ?r" by (simp add: round_half_even_nonneg)
  have near: "\<bar>real_of_int ?r - \<bar>val\<bar> * 100\<bar> \<le> 1 / 2" by (rule round_half_even_near)
  have D: "list_all is_digit ?D" "?D \<noteq> []"
    using show_nat_digits[of "?c div 100"] by (simp_all add: digit_char_props)
  show ?thesis
  proof (cases "val < 0")
    case False
    then have "\<bar>val\<bar> * 100 \<le> real_of_int 9999" using assms(2) by simp
    then have "?r \<le> 9999" by (rule round_half_even_le)
    then have "?c div 100 < 100" using r0 by simp
    then have "length ?D \<le> 4" using show_nat_length(2)[of "?c div 100"] by simp
    then have vt: "value_text val = ?D"
      using False by (simp add: value_text_def stripped_format)
    have "parse_int ?D = Inr (int ?c)"
      using parse_int_digits(1)[OF D(2) D(1)] by (simp only: digits_value)
    then have "parse_int (value_text val) = Inr (int ?c)"
      by (simp only: vt)
    then have "read_back val = real_of_int ?r * (1 / 100)"
      using r0 by (simp add: read_back_def)
    then have e: "read_back val * 100 = real_of_int ?r" by simp
    have v: "\<bar>val\<bar> = val" using False by simp
    from near have "\<bar>read_back val * 100 - \<bar>val\<bar> * 100\<bar> \<le> 1 / 2"
      by (simp only: e)
    then have "\<bar>read_back val * 100 - val * 100\<bar> \<le> 1 / 2"
      by (simp only: v)
    then have "\<bar>read_back val - val\<bar> \<le> 1 / 200" by arith
    then show ?thesis by simp
  next
    case True
    then have "\<bar>val\<bar> * 100 \<le> real_of_int 999" using assms(1) by simp
    then have "?r \<le> 999" by (rule round_half_even_le)
    then have "?c div 100 < 10" using r0 by simp
    then have "length ?D = 3" using show_nat_length(1)[of "?c div 100"] by simp
    then have vt: "value_text val = CHR ''-'' # ?D"
      using True by (simp add: value_text_def stripped_format)
    have "parse_int (CHR ''-'' # ?D) = Inr (- int ?c)"
      using parse_int_digits(2)[OF D(2) D(1)] by (simp only: digits_value)
    then have "parse_int (value_text val) = Inr (- int ?c)"
      by (simp only: vt)
    then have "read_back val = - real_of_int ?r * (1 / 100)"
      using r0 by (simp add: read_back_def)
    then have e: "real_of_int ?r = - (read_back val * 100)" by simp
    have v: "\<bar>val\<bar> = - val" using True by simp
    from near have "\<bar>- (read_back val * 100) - \<bar>val\<bar> * 100\<bar> \<le> 1 / 2"
      by (simp only: e)
    then have "\<bar>- (read_back val * 100) - - val * 100\<bar> \<le> 1 / 2"
      by (simp only: v)
    then have "\<bar>read_back val - val\<bar> \<le> 1 / 200" by arith
    then show ?thesis by simp
  qed
qed

lemma digit_char_literals:
  "digit_char 0 = CHR ''0''" "digit_char (Suc 0) = CHR ''1''"
  by code_simp+

lemma value_text_100: "value_text 100 = ''1000''"
proof -
  have "round_half_even (\<bar>100\<bar> * 100) = 10000"
    by (simp add: round_half_even_def)
  then have "format_2f 100 = ''100.00''"
    by (simp add: format_2f_def Let_def show_nat.simps digit_char_literals)
  then show ?thesis by (simp add: value_text_def)
qed

lemma read_back_100: "read_back 100 = 10"
  by (simp add: read_back_def value_text_100 parse_int_def parse_nat_def is_digit_def
      digit_val_def)

lemma py_split_blank_no_blank:
  "CHR '' '' \<notin> set s \<Longrightarrow> py_split '' '' s = [s]"
  by (induction s) auto

lemma py_split_blank_token:
  "CHR '' '' \<notin> set tok \<Longrightarrow> py_split '' '' (tok @ '' '' @ rest) = tok # py_split '' '' rest"
  by (induction tok) auto

lemma py_split_blank_tokens:
  assumes "\<forall>tok\<in>set toks. CHR '' '' \<notin> set tok"
  shows "py_split '' '' (concat (map (\<lambda>tok. tok @ '' '') toks) @ rest) = toks @ py_split '' '' rest"
  using assms
proof (induction toks)
  case Nil
  then show ?case by simp
next
  case (Cons tok toks)
  then have "py_split '' '' (tok @ '' '' @ (concat (map (\<lambda>tok. tok @ '' '') toks) @ rest))
      = tok # toks @ py_split '' '' rest"
    using py_split_blank_token[of tok] by simp
  then show ?case by simp
qed

lemma split_write_line:
  assumes "CHR '' '' \<notin> set (str_float t)"
  shows "py_split '' '' (write_line str_float step t) =
           map value_text (flatten_F step) @ [''t:'', str_float t @ [newline]]"
proof -
  have 1: "\<forall>tok\<in>set (map value_text (flatten_F step)). CHR '' '' \<notin> set tok"
    by (simp add: value_text_no_blank)
  have 2: "write_line str_float step t =
      concat (map (\<lambda>tok. tok @ '' '') (map value_text (flatten_F step))) @
      (''t:'' @ '' '' @ (str_float t @ [newline]))"
    by (simp add: write_line_def comp_def)
  have 3: "py_split '' '' (''t:'' @ '' '' @ (str_float t @ [newline]))
      = [''t:'', str_float t @ [newline]]"
    using py_split_blank_token[of "''t:''" "str_float t @ [newline]"]
      py_split_blank_no_blank[of "str_float t @ [newline]"] assms
    by (simp add: newline_def)
  show ?thesis
    unfolding 2 py_split_blank_tokens[OF 1] 3 ..
qed

lemma parse_all_value_texts:
  "\<exists>cs. parse_all (map value_text vs) = Inr cs \<and>
     map (\<lambda>c. real_of_int c * (1 / 100)) cs = map read_back vs"
proof (induction vs)
  case Nil
  show ?case by simp
next
  case (Cons v vs)
  then obtain cs where cs: "parse_all (map value_text vs) = Inr cs"
    "map (\<lambda>c. real_of_int c * (1 / 100)) cs = map read_back vs" by blast
  from parse_value_text[of v] obtain c where c: "parse_int (value_text v) = Inr c" by blast
  from c cs parse_value_text_read_back[OF c] show ?case by simp
qed

lemma parse_all_length: "parse_all toks = Inr cs \<Longrightarrow> length cs = length toks"
  by (induction toks arbitrary: cs) (auto split: sum.splits)

text \<open>Square frames.\<close>

lemma transpose_square:
  assumes "length X = n" and "\<forall>r\<in>set X. length r = n"
  shows "transpose X = map (\<lambda>i. map (\<lambda>j. X ! j ! i) [0 ..< n]) [0 ..< n]"
proof -
  have "transpose X = map (\<lambda>i. map (\<lambda>j. X ! j ! i) [0 ..< length X]) [0 ..< n]"
    using assms by (intro transpose_rectangle) auto
  with assms(1) show ?thesis by simp
qed

lemma transpose_square_shape:
  assumes "length X = n" and "\<forall>r\<in>set X. length r = n"
  shows "length (transpose X) = n" and "\<forall>r\<in>set (transpose X). length r = n"
  by (simp_all add: transpose_square[OF assms])

lemma transpose_transpose_square:
  assumes "length X = n" and "\<forall>r\<in>set X. length r = n"
  shows "transpose (transpose X) = X"
proof -
  note s = transpose_square_shape[OF assms]
  have "transpose (transpose X) = map (\<lambda>i. map (\<lambda>j. transpose X ! j ! i) [0 ..< n]) [0 ..< n]"
    by (rule transpose_square[OF s])
  also have "\<dots> = X"
  proof (rule nth_equalityI)
    show "length (map (\<lambda>i. map (\<lambda>j. transpose X ! j ! i) [0 ..< n]) [0 ..< n]) = length X"
      using assms(1) by simp
  next
    fix i assume "i < length (map (\<lambda>i. map (\<lambda>j. transpose X ! j ! i) [0 ..< n]) [0 ..< n])"
    then have i: "i < n" by simp
    then have li: "length (X ! i) = n" using assms by simp
    have "map (\<lambda>j. transpose X ! j ! i) [0 ..< n] = X ! i"
    proof (rule nth_equalityI)
      show "length (map (\<lambda>j. transpose X ! j ! i) [0 ..< n]) = length (X ! i)"
        using li by simp
    next
      fix j assume "j < length (map (\<lambda>j. transpose X ! j ! i) [0 ..< n])"
      then have j: "j < n" by simp
      with i show "map (\<lambda>j. transpose X ! j ! i) [0 ..< n] ! j = X ! i ! j"
        by (simp add: transpose_square[OF assms])
    qed
    with i show "map (\<lambda>i. map (\<lambda>j. transpose X ! j ! i) [0 ..< n]) [0 ..< n] ! i = X ! i"
      by simp
  qed
  finally show ?thesis .
qed

lemma concat_square_nth:
  assumes "\<forall>r\<in>set X. length r = n" and "j < length X" and "i < n"
  shows "concat X ! (i + n * j) = X ! j ! i"
  using assms
proof (induction X arbitrary: j)
  case Nil
  then show ?case by simp
next
  case (Cons r X)
  show ?case
  proof (cases j)
    case 0
    with Cons.prems show ?thesis by (simp add: nth_append)
  next
    case (Suc k)
    with Cons.prems have "concat X ! (i + n * k) = X ! k ! i"
      by (intro Cons.IH) auto
    moreover have "i + n * Suc k = length r + (i + n * k)" using Cons.prems by simp
    ultimately show ?thesis using Suc
      by (simp only: concat.simps nth_append_length_plus nth_Cons_Suc)
  qed
qed

lemma concat_square_length:
  "\<forall>r\<in>set X. length r = n \<Longrightarrow> length (concat X) = n * length X"
  by (induction X) simp_all

lemma reshape_flatten:
  assumes "length X = n" and "\<forall>r\<in>set X. length r = n"
  shows "reshape_F n (map g (flatten_F X)) = Inr (map (map g) X)"
proof -
  note s = transpose_square_shape[OF assms]
  have len: "length (flatten_F X) = n * n"
    using concat_square_length[OF s(2)] s(1) by (simp add: flatten_F_def)
  have "map (\<lambda>i. map (\<lambda>j. map g (flatten_F X) ! (i + n * j)) [0 ..< n]) [0 ..< n] = map (map g) X"
  proof (rule nth_equalityI)
    show "length (map (\<lambda>i. map (\<lambda>j. map g (flatten_F X) ! (i + n * j)) [0 ..< n]) [0 ..< n])
        = length (map (map g) X)"
      using assms(1) by simp
  next
    fix i assume "i < length (map (\<lambda>i. map (\<lambda>j. map g (flatten_F X) ! (i + n * j)) [0 ..< n]) [0 ..< n])"
    then have i: "i < n" by simp
    then have li: "length (X ! i) = n" using assms by simp
    have "map (\<lambda>j. map g (flatten_F X) ! (i + n * j)) [0 ..< n] = map g (X ! i)"
    proof (rule nth_equalityI)
      show "length (map (\<lambda>j. map g (flatten_F X) ! (i + n * j)) [0 ..< n]) = length (map g (X ! i))"
        using li by simp
    next
      fix j assume "j < length (map (\<lambda>j. map g (flatten_F X) ! (i + n * j)) [0 ..< n])"
      then have j: "j < n" by simp
      have b: "i + n * j < n * n"
      proof -
        have "i + n * j < n + n * j" using i by simp
        also have "\<dots> = n * Suc j" by simp
        also have "\<dots> \<le> n * n" using j by (intro mult_le_mono2) simp
        finally show ?thesis .
      qed
      have "flatten_F X ! (i + n * j) = transpose X ! j ! i"
        unfolding flatten_F_def using s j i by (intro concat_square_nth) auto
      also have "\<dots> = X ! i ! j" using i j by (simp add: transpose_square[OF assms])
      finally show "map (\<lambda>j. map g (flatten_F X) ! (i + n * j)) [0 ..< n] ! j = map g (X ! i) ! j"
        using i j b len li by simp
    qed
    with i assms(1) show "map (\<lambda>i. map (\<lambda>j. map g (flatten_F X) ! (i + n * j)) [0 ..< n]) [0 ..< n] ! i
        = map (map g) X ! i" by simp
  qed
  with len show ?thesis by (simp add: reshape_F_def)
qed

lemma rot90_shape:
  assumes "length m = n" and "\<forall>r\<in>set m. length r = n"
  shows "length (rot90 m) = n" and "\<forall>r\<in>set (rot90 m). length r = n"
proof -
  have s: "length (map rev m) = n" "\<forall>r\<in>set (map rev m). length r = n"
    using assms by simp_all
  show "length (rot90 m) = n" and "\<forall>r\<in>set (rot90 m). length r = n"
    unfolding rot90_def by (rule transpose_square_shape[OF s])+
qed

lemma rot90_back_rot90:
  assumes "length m = n" and "\<forall>r\<in>set m. length r = n"
  shows "rot90_back (map (map g) (rot90 m)) = map (map g) m"
proof -
  have s: "length (map rev m) = n" "\<forall>r\<in>set (map rev m). length r = n"
    using assms by simp_all
  have "rot90_back (map (map g) (rot90 m)) = map rev (map (map g) (transpose (transpose (map rev m))))"
    by (simp add: rot90_back_def rot90_def transpose_map_map)
  also have "\<dots> = map rev (map (map g) (map rev m))"
    by (simp only: transpose_transpose_square[OF s])
  also have "\<dots> = map (map g) m"
    by (simp add: rev_map comp_def)
  finally show ?thesis .
qed

lemma reshape_F_map:
  assumes "reshape_F n xs = Inr M"
  shows "reshape_F n (map h xs) = Inr (map (map h) M)"
proof -
  from assms have len: "length xs = n * n"
    and M: "M = map (\<lambda>i. map (\<lambda>j. xs ! (i + n * j)) [0 ..< n]) [0 ..< n]"
    by (auto simp: reshape_F_def split: if_splits)
  have b: "i + n * j < n * n" if "i < n" "j < n" for i j
  proof -
    have "i + n * j < n + n * j" using that by simp
    also have "\<dots> = n * Suc j" by simp
    also have "\<dots> \<le> n * n" using that by (intro mult_le_mono2) simp
    finally show ?thesis .
  qed
  have "map (\<lambda>i. map (\<lambda>j. map h xs ! (i + n * j)) [0 ..< n]) [0 ..< n] = map (map h) M"
    unfolding M using b len by (auto simp: comp_def)
  with len show ?thesis by (simp add: reshape_F_def)
qed

lemma read_written_line:
  assumes sq: "length m = n" "\<forall>r\<in>set m. length r = n"
    and blank: "CHR '' '' \<notin> set (str_float t)"
    and fl: "float_of (str_float t @ [newline]) = Inr t"
  shows "read_line float_of n (write_line str_float (rot90 m) t)
           = Inr (map (map read_back) (rot90 m), t)"
proof -
  let ?R = "rot90 m"
  note rs = rot90_shape[OF sq]
  have len: "length (flatten_F ?R) = n ^ 2"
    using concat_square_length[OF transpose_square_shape(2)[OF rs]] transpose_square_shape(1)[OF rs]
    by (simp add: flatten_F_def power2_eq_square)
  note sp = split_write_line[where str_float = str_float and t = t and step = ?R, OF blank]
  have tk: "take (n ^ 2) (py_split '' '' (write_line str_float ?R t)) = map value_text (flatten_F ?R)"
    unfolding sp using len by simp
  have la: "last (py_split '' '' (write_line str_float ?R t)) = str_float t @ [newline]"
    unfolding sp by simp
  from parse_all_value_texts[of "flatten_F ?R"] obtain cs where
    cs: "parse_all (map value_text (flatten_F ?R)) = Inr cs"
      "map (\<lambda>c. real_of_int c * (1 / 100)) cs = map read_back (flatten_F ?R)" by blast
  from parse_all_length[OF cs(1)] len have lcs: "length cs = n * n"
    by (simp add: power2_eq_square)
  then obtain M where M: "reshape_F n cs = Inr M" by (simp add: reshape_F_def)
  from reshape_F_map[OF M, of "\<lambda>c. real_of_int c * (1 / 100)"] cs(2)
  have "reshape_F n (map read_back (flatten_F ?R))
      = Inr (map (map (\<lambda>c. real_of_int c * (1 / 100))) M)" by simp
  with reshape_flatten[OF rs, of read_back]
  have fr: "map (map (\<lambda>c. real_of_int c * (1 / 100))) M = map (map read_back) ?R" by simp
  show ?thesis
    using fr by (simp add: read_line_def Let_def tk la cs(1) M fl)
qed

lemma readlines_line:
  "newline \<notin> set body \<Longrightarrow> readlines (body @ [newline] @ rest) = (body @ [newline]) # readlines rest"
  by (induction body) (auto split: list.splits)

lemma write_line_body:
  assumes "newline \<notin> set (str_float t)"
  shows "\<exists>body. write_line str_float step t = body @ [newline] \<and> newline \<notin> set body"
proof -
  let ?body = "concat (map (\<lambda>val. value_text val @ '' '') (flatten_F step)) @ ''t: '' @ str_float t"
  have "newline \<notin> set ?body"
    using assms value_text_no_newline by (auto simp: newline_def)
  moreover have "write_line str_float step t = ?body @ [newline]"
    by (simp add: write_line_def)
  ultimately show ?thesis by blast
qed

lemma readlines_written_lines:
  assumes "\<forall>(m, t)\<in>set fts. newline \<notin> set (str_float t)"
  shows "readlines (concat (map (\<lambda>(m, t). write_line str_float (f m) t) fts))
           = map (\<lambda>(m, t). write_line str_float (f m) t) fts"
  using assms
proof (induction fts)
  case Nil
  show ?case by simp
next
  case (Cons p fts)
  obtain m t where p: "p = (m, t)" by (cases p)
  with Cons.prems have "newline \<notin> set (str_float t)" by simp
  from write_line_body[where str_float = str_float and t = t and step = "f m", OF this] obtain body where
    b: "write_line str_float (f m) t = body @ [newline]" "newline \<notin> set body" by blast
  have "readlines (body @ [newline] @ concat (map (\<lambda>(m, t). write_line str_float (f m) t) fts))
      = (body @ [newline]) # map (\<lambda>(m, t). write_line str_float (f m) t) fts"
    using readlines_line[OF b(2)] Cons by simp
  then show ?case by (simp add: p b(1))
qed

lemma read_written_lines:
  assumes "\<forall>(m, t)\<in>set fts. length m = n \<and> (\<forall>r\<in>set m. length r = n) \<and>
             CHR '' '' \<notin> set (str_float t) \<and> float_of (str_float t @ [newline]) = Inr t"
  shows "read_lines float_of n (map (\<lambda>(m, t). write_line str_float (rot90 m) t) fts)
           = Inr (map (\<lambda>(m, t). map (map read_back) (rot90 m)) fts, map snd fts)"
  using assms
proof (induction fts)
  case Nil
  show ?case by simp
next
  case (Cons p fts)
  obtain m t where p: "p = (m, t)" by (cases p)
  with Cons.prems have h: "length m = n" "\<forall>r\<in>set m. length r = n"
    "CHR '' '' \<notin> set (str_float t)" "float_of (str_float t @ [newline]) = Inr t" by auto
  from Cons have ih: "read_lines float_of n (map (\<lambda>(m, t). write_line str_float (rot90 m) t) fts)
           = Inr (map (\<lambda>(m, t). map (map read_back) (rot90 m)) fts, map snd fts)" by simp
  show ?case
    by (simp add: p ih
        read_written_line[where float_of = float_of and str_float = str_float and t = t and m = m
          and n = n, OF h])
qed

lemma np_of_txt_of_np:
  assumes ne: "array \<noteq> []"
    and sq: "\<forall>m\<in>set array. length m = n \<and> (\<forall>r\<in>set m. length r = n)"
    and len: "length tstamps = length array"
    and str: "\<forall>t\<in>set tstamps. CHR '' '' \<notin> set (str_float t) \<and> newline \<notin> set (str_float t) \<and>
                float_of (str_float t @ [newline]) = Inr t"
  shows "np_of_txt float_of n (txt_of_np str_float array tstamps)
           = Inr (map (map (map read_back)) array, tstamps)"
proof -
  let ?fts = "zip array tstamps"
  let ?lines = "map (\<lambda>(m, t). write_line str_float (rot90 m) t) ?fts"
  have z: "zip (map rot90 array) tstamps = map (\<lambda>(m, t). (rot90 m, t)) ?fts"
    by (simp add: zip_map1)
  have content: "txt_of_np str_float array tstamps = ''HTPA32x32d'' @ [newline] @ concat ?lines"
    by (simp add: txt_of_np_def z comp_def case_prod_unfold)
  have mem: "m \<in> set array \<and> t \<in> set tstamps" if "(m, t) \<in> set ?fts" for m t
    using that by (auto dest: set_zip_leftD set_zip_rightD)
  have nl: "\<forall>(m, t)\<in>set ?fts. newline \<notin> set (str_float t)"
    using mem str by blast
  have hd: "newline \<notin> set ''HTPA32x32d''" by (simp add: newline_def)
  have rl: "readlines (txt_of_np str_float array tstamps) = (''HTPA32x32d'' @ [newline]) # ?lines"
    unfolding content using readlines_line[OF hd] readlines_written_lines[OF nl, of rot90] by simp
  have pre: "\<forall>(m, t)\<in>set ?fts. length m = n \<and> (\<forall>r\<in>set m. length r = n) \<and>
      CHR '' '' \<notin> set (str_float t) \<and> float_of (str_float t @ [newline]) = Inr t"
    using mem sq str by blast
  note rd = read_written_lines[OF pre]
  have fsts: "map fst ?fts = array" and snds: "map snd ?fts = tstamps"
    using len by simp_all
  have unrot: "map rot90_back (map (\<lambda>(m, t). map (map read_back) (rot90 m)) ?fts)
      = map (map (map read_back)) array"
  proof -
    have "rot90_back (map (map read_back) (rot90 m)) = map (map read_back) m"
      if "(m, t) \<in> set ?fts" for m t
      using mem[OF that] sq by (intro rot90_back_rot90[where n = n]) auto
    then have "map rot90_back (map (\<lambda>(m, t). map (map read_back) (rot90 m)) ?fts)
        = map (\<lambda>(m, t). map (map read_back) m) ?fts"
      by auto
    also have "\<dots> = map (map (map read_back)) (map fst ?fts)"
      by (simp add: comp_def case_prod_unfold)
    finally show ?thesis by (simp only: fsts)
  qed
  have nonempty: "map (\<lambda>(m, t). map (map read_back) (rot90 m)) ?fts \<noteq> []"
    using ne len by (cases array; cases tstamps) auto
  have "read_lines float_of n (tl (readlines (txt_of_np str_float array tstamps)))
      = Inr (map (\<lambda>(m, t). map (map read_back) (rot90 m)) ?fts, tstamps)"
    unfolding rl list.sel rd snds ..
  then show ?thesis
    using nonempty unrot by (simp add: np_of_txt_def del: map_map)
qed

text \<open>
  Writing a recording as txt and reading it back gives every value as \<open>read_back\<close>
  reads it, and the timestamps.
\<close>

lemma txt_write_read:
  assumes ext: "get_extension filepath = Inr ext" "lower ext = ''txt''"
    and parent: "dirname filepath \<noteq> [] \<or> path_exists fs (dirname filepath)"
    and ne: "array \<noteq> []"
    and sq: "\<forall>m\<in>set array. length m = 32 \<and> (\<forall>r\<in>set m. length r = 32)"
    and len: "length tstamps = length array"
    and str: "\<forall>t\<in>set tstamps. CHR '' '' \<notin> set (str_float t) \<and> newline \<notin> set (str_float t) \<and>
                float_of (str_float t @ [newline]) = Inr t"
  shows "\<exists>fs'. write_tpa_file write_np2csv write_np2pickle str_float filepath array tstamps fs
                 = Inr fs' \<and>
               read_tpa_file csv2np pickle2np float_of fs' filepath
                 = Inr (map (map (map read_back)) array, tstamps)"
proof -
  have codec: "map_of READERS_EXTENSIONS_DICT (lower ext) = Some ''txt''"
    by (simp add: ext(2) READERS_EXTENSIONS_DICT_def)
  have "\<exists>fs1. ensure_parent_exists filepath fs = Inr fs1"
    using parent
    by (cases "path_exists fs (dirname filepath)")
      (simp_all add: ensure_parent_exists_def ensure_path_exists_def)
  then obtain fs1 where fs1: "ensure_parent_exists filepath fs = Inr fs1" by blast
  let ?content = "txt_of_np str_float array tstamps"
  let ?fs' = "fs1\<lparr>files := AList.update filepath (Raw ?content) (files fs1)\<rparr>"
  have w: "write_tpa_file write_np2csv write_np2pickle str_float filepath array tstamps fs = Inr ?fs'"
    by (simp add: write_tpa_file_def ext(1) codec write_np2txt_def fs1)
  have "map_of (files ?fs') filepath = Some (Raw ?content)"
    by (simp add: update_conv')
  then have "txt2np float_of ?fs' filepath 32 = np_of_txt float_of 32 ?content"
    by (simp add: txt2np_def)
  then have r: "read_tpa_file csv2np pickle2np float_of ?fs' filepath
      = Inr (map (map (map read_back)) array, tstamps)"
    using np_of_txt_of_np[OF ne sq len str]
    by (simp add: read_tpa_file_def ext(1) codec)
  from w r show ?thesis by blast
qed

text \<open>
  Claim C8 (amended).  For a path with extension \<open>txt\<close> (in any case) whose parent
  directory can be created, an array of at least one frame, all frames 32 by 32 with
  values between \<open>-9.99\<close> and \<open>99.99\<close>, and as many timestamps as frames, where Python
  renders each timestamp without blank and reads it back, \<open>write_tpa_file\<close> followed by
  \<open>read_tpa_file\<close> yields an array of the same number of frames whose values differ
  from the original by at most \<open>0.005\<close>, and the same timestamps.
\<close>

theorem txt_write_read_round_trip:
  assumes "get_extension filepath = Inr ext" and "lower ext = ''txt''"
    and "dirname filepath \<noteq> [] \<or> path_exists fs (dirname filepath)"
    and "array \<noteq> []"
    and "\<forall>m\<in>set array. length m = 32 \<and> (\<forall>r\<in>set m. length r = 32)"
    and "length tstamps = length array"
    and "\<forall>t\<in>set tstamps. CHR '' '' \<notin> set (str_float t) \<and> newline \<notin> set (str_float t) \<and>
           float_of (str_float t @ [newline]) = Inr t"
    and "\<forall>m\<in>set array. \<forall>r\<in>set m. \<forall>v\<in>set r. - 9.99 \<le> v \<and> v \<le> 99.99"
  shows "\<exists>fs' array'.
           write_tpa_file write_np2csv write_np2pickle str_float filepath array tstamps fs
             = Inr fs' \<and>
           read_tpa_file csv2np pickle2np float_of fs' filepath = Inr (array', tstamps) \<and>
           length array' = length array \<and>
           (\<forall>k<length array. \<forall>i<32. \<forall>j<32.
              \<bar>array' ! k ! i ! j - array ! k ! i ! j\<bar> \<le> 0.005)"
proof -
  from txt_write_read[OF assms(1-7), of write_np2csv write_np2pickle csv2np pickle2np]
  obtain fs' where
    w: "write_tpa_file write_np2csv write_np2pickle str_float filepath array tstamps fs = Inr fs'"
    and r: "read_tpa_file csv2np pickle2np float_of fs' filepath
      = Inr (map (map (map read_back)) array, tstamps)"
    by blast
  have "\<bar>map (map (map read_back)) array ! k ! i ! j - array ! k ! i ! j\<bar> \<le> 0.005"
    if "k < length array" "i < 32" "j < 32" for k i j
  proof -
    from that(1) have m: "array ! k \<in> set array" by simp
    with assms(5) that(2) have row: "array ! k ! i \<in> set (array ! k)"
      by (metis nth_mem)
    with m assms(5) that(3) have v: "array ! k ! i ! j \<in> set (array ! k ! i)"
      by (metis nth_mem)
    from m row v assms(8) have rng: "- 9.99 \<le> array ! k ! i ! j" "array ! k ! i ! j \<le> 99.99"
      by blast+
    from m assms(5) have l1: "length (array ! k) = 32" by blast
    from m row assms(5) have l2: "length (array ! k ! i) = 32" by blast
    have "map (map (map read_back)) array ! k ! i ! j = read_back (array ! k ! i ! j)"
      using that l1 l2 by simp
    with read_back_in_range[OF rng] show ?thesis by simp
  qed
  with w r show ?thesis by (intro exI[of _ fs'] exI[of _ "map (map (map read_back)) array"]) simp
qed

lemma out_path:
  "get_extension ''out/s.txt'' = Inr ''txt''" "lower ''txt'' = ''txt''" "dirname ''out/s.txt'' = ''out''"
  by (simp_all add: get_extension_def lower_def dirname_def basename_def)

theorem txt_write_read_round_trip_witness:
  "get_extension ''out/s.txt'' = Inr ''txt'' \<and> lower ''txt'' = ''txt'' \<and>
   (\<exists>fs' array'.
      write_tpa_file no_writer no_writer (\<lambda>t. ''0.0'') ''out/s.txt''
        [replicate 32 (replicate 32 23.45)] [0] \<lparr>files = [], dirs = []\<rparr> = Inr fs' \<and>
      read_tpa_file no_reader no_reader (\<lambda>s. Inr 0) fs' ''out/s.txt'' = Inr (array', [0]) \<and>
      length array' = 1 \<and> \<bar>array' ! 0 ! 0 ! 0 - 23.45\<bar> \<le> 0.005)"
proof -
  let ?array = "[replicate 32 (replicate 32 (23.45::real))]"
  have h3: "dirname ''out/s.txt'' \<noteq> [] \<or> path_exists \<lparr>files = [], dirs = []\<rparr> (dirname ''out/s.txt'')"
    by (simp add: out_path)
  have h4: "?array \<noteq> []" by simp
  have h5: "\<forall>m\<in>set ?array. length m = 32 \<and> (\<forall>r\<in>set m. length r = 32)" by simp
  have h6: "length [0::real] = length ?array" by simp
  have h7: "\<forall>t\<in>set [0::real]. CHR '' '' \<notin> set ((\<lambda>t. ''0.0'') t) \<and>
      newline \<notin> set ((\<lambda>t. ''0.0'') t) \<and>
      (\<lambda>s. Inr 0) ((\<lambda>t. ''0.0'') t @ [newline]) = (Inr t :: error + real)"
    by (simp add: newline_def)
  have h8: "\<forall>m\<in>set ?array. \<forall>r\<in>set m. \<forall>v\<in>set r. - 9.99 \<le> v \<and> v \<le> 99.99" by simp
  from txt_write_read_round_trip[OF out_path(1,2) h3 h4 h5 h6 h7 h8,
      of no_writer no_writer no_reader no_reader]
  obtain fs' array' where
    r: "write_tpa_file no_writer no_writer (\<lambda>t. ''0.0'') ''out/s.txt'' ?array [0]
          \<lparr>files = [], dirs = []\<rparr> = Inr fs'"
      "read_tpa_file no_reader no_reader (\<lambda>s. Inr 0) fs' ''out/s.txt'' = Inr (array', [0])"
      "length array' = length ?array"
      "\<forall>k<length ?array. \<forall>i<32. \<forall>j<32. \<bar>array' ! k ! i ! j - ?array ! k ! i ! j\<bar> \<le> 0.005"
    by blast
  from r(4) have "\<bar>array' ! 0 ! 0 ! 0 - ?array ! 0 ! 0 ! 0\<bar> \<le> 0.005" by simp
  then have "\<bar>array' ! 0 ! 0 ! 0 - 23.45\<bar> \<le> 0.005" by simp
  with r(1,2,3) out_path(1,2) show ?thesis by auto
qed

text \<open>
  The claim as stated covers every frame array.  The text of a value is cut to four
  characters: \<open>100.0\<close> is written as \<open>1000\<close> and read back as \<open>10.0\<close>.
\<close>

theorem txt_round_trip_truncates_counterexample:
  "\<exists>fs'. write_tpa_file no_writer no_writer (\<lambda>t. ''0.0'') ''out/s.txt''
            [replicate 32 (replicate 32 100)] [0] \<lparr>files = [], dirs = []\<rparr> = Inr fs' \<and>
          read_tpa_file no_reader no_reader (\<lambda>s. Inr 0) fs' ''out/s.txt''
            = Inr ([replicate 32 (replicate 32 10)], [0])"
proof -
  let ?array = "[replicate 32 (replicate 32 (100::real))]"
  have h3: "dirname ''out/s.txt'' \<noteq> [] \<or> path_exists \<lparr>files = [], dirs = []\<rparr> (dirname ''out/s.txt'')"
    by (simp add: out_path)
  have h4: "?array \<noteq> []" by simp
  have h5: "\<forall>m\<in>set ?array. length m = 32 \<and> (\<forall>r\<in>set m. length r = 32)" by simp
  have h6: "length [0::real] = length ?array" by simp
  have h7: "\<forall>t\<in>set [0::real]. CHR '' '' \<notin> set ((\<lambda>t. ''0.0'') t) \<and>
      newline \<notin> set ((\<lambda>t. ''0.0'') t) \<and>
      (\<lambda>s. Inr 0) ((\<lambda>t. ''0.0'') t @ [newline]) = (Inr t :: error + real)"
    by (simp add: newline_def)
  have "map (map (map read_back)) ?array = [replicate 32 (replicate 32 10)]"
    by (simp add: read_back_100)
  with txt_write_read[OF out_path(1,2) h3 h4 h5 h6 h7, of no_writer no_writer no_reader no_reader]
  show ?thesis by simp
qed

end
